theory Spec2Isabelle
  imports Main "HOL-Library.AList"
begin

section \<open>Promises of the vow library, as the node uses them\<close>

text \<open>
  Errors are values. \<open>Error\<close> is a plain JavaScript \<open>Error\<close> with its message,
  \<open>TargetNotFoundError\<close> the node's own error class (lib/errors/target-not-found-error),
  \<open>TypeError\<close> the error the engine throws when a property of \<open>undefined\<close> is read or
  a value that is no function is called.
\<close>

datatype error = Error string | TargetNotFoundError string | TypeError string

text \<open>
  The state of a deferred created by \<open>Vow.defer()\<close>. \<open>resolve\<close> and \<open>reject\<close> act
  on a pending deferred only; a settled one keeps its outcome.
\<close>

datatype 'v promise = Pending | Fulfilled 'v | Rejected error

definition defer_resolve :: "'v \<Rightarrow> 'v promise \<Rightarrow> 'v promise" where
  "defer_resolve v p = (case p of Pending \<Rightarrow> Fulfilled v | _ \<Rightarrow> p)"

definition defer_reject :: "error \<Rightarrow> 'v promise \<Rightarrow> 'v promise" where
  "defer_reject e p = (case p of Pending \<Rightarrow> Rejected e | _ \<Rightarrow> p)"

text \<open>
  \<open>Vow.all\<close> over the states its members have at one moment: rejected as soon as a member
  is rejected (of several rejected members the first in the array is reported), fulfilled
  with all values when every member is fulfilled, pending otherwise.
\<close>

fun vow_all :: "'v promise list \<Rightarrow> 'v list promise" where
  "vow_all [] = Fulfilled []"
| "vow_all (p # ps) =
     (case p of
        Rejected e \<Rightarrow> Rejected e
      | Pending \<Rightarrow> (case vow_all ps of Rejected e \<Rightarrow> Rejected e | _ \<Rightarrow> Pending)
      | Fulfilled v \<Rightarrow>
          (case vow_all ps of
             Fulfilled vs \<Rightarrow> Fulfilled (v # vs)
           | Rejected e \<Rightarrow> Rejected e
           | Pending \<Rightarrow> Pending))"

section \<open>Plain objects used as dictionaries\<close>

text \<open>
  \<open>_targetNames\<close> of the node and \<open>bySuffix\<close> of a FileList are created by
  \<^verbatim>\<open>{}\<close> and read by \<^verbatim>\<open>obj[key]\<close>. Such a read finds the object's own property
  or, when it has none under the key, the property the object inherits from
  \<open>Object.prototype\<close>; \<open>inherited_names\<close> are the keys of those. Every inherited value
  is an object (a function, or \<open>Object.prototype\<close> itself under \<open>__proto__\<close>): it is
  truthy, it is no array and it has no \<open>deferred\<close>.
\<close>

definition inherited_names :: "string list" where
  "inherited_names =
     [''constructor'', ''__defineGetter__'', ''__defineSetter__'', ''hasOwnProperty'',
      ''__lookupGetter__'', ''__lookupSetter__'', ''isPrototypeOf'', ''propertyIsEnumerable'',
      ''toString'', ''valueOf'', ''__proto__'', ''toLocaleString'']"

datatype 'a property = Undefined | Own 'a | Inherited string

definition read_property :: "'a option \<Rightarrow> string \<Rightarrow> 'a property" where
  "read_property own key =
     (case own of
        Some x \<Rightarrow> Own x
      | None \<Rightarrow> if key \<in> set inherited_names then Inherited key else Undefined)"

section \<open>Technologies, targets and the node (lib/node)\<close>

text \<open>
  A technology is an external plugin. The node calls \<open>getName\<close>, \<open>getTargets\<close> and
  \<open>build\<close>, and writes the flag \<open>__started\<close> on the technology object. The object's
  identity is \<open>tech_addr\<close>; the flag lives in the node's \<open>tech_started\<close> store under
  that address. What \<open>build()\<close> does before it returns is a sequence of calls back into
  the node (\<open>build_calls\<close>), after which it either throws (\<open>build_throws\<close>) or
  returns. With \<open>build_returns = Some sources\<close> its last statement is
  \<^verbatim>\<open>return this.node.requireSources(sources).then(...)\<close>, as in the technologies of
  \<open>techs/\<close>: the promise returned waits for the required sources. With
  \<open>build_returns = None\<close> it returns a promise that waits for no target. Calls a
  technology makes later, from a callback, are calls on the node by its environment.
\<close>

datatype 'v call =
    RequireSources "string list"
  | ResolveTarget string 'v
  | RejectTarget string error
  | IsValidTarget string

record 'v Tech =
  tech_addr :: nat
  getName :: string
  getTargets :: "string list"
  build_calls :: "'v call list"
  build_throws :: "error option"
  build_returns :: "string list option"

text \<open>Calls on the logger and on the profiler, in the order they are made.\<close>

datatype log_event =
    LogAction string string "string option"
  | LogIsValid string "string option"
  | LogErrorAction string string "string option"

datatype profile_event = SetStartTime string string | SetEndTime string

text \<open>
  An entry of \<open>_targetNames\<close>:
  \<^verbatim>\<open>{ tech, started, isValid, deferred }\<close>; a field the code leaves undefined is
  \<open>None\<close> or \<open>False\<close>.
\<close>

record 'v target =
  tech :: "'v Tech option"
  started :: bool
  isValid :: bool
  deferred :: "'v promise"

text \<open>
  What \<open>requireSources\<close> hands to \<open>Vow.all\<close> for one source: the promise of the
  target's deferred, or a fresh promise made by \<open>Vow.reject\<close>.
\<close>

datatype future = TargetPromise string | RejectedPromise error

text \<open>
  The node. \<open>targetNames\<close> is the object \<open>_targetNames\<close> with its own keys in
  insertion order. \<open>registered\<close> says that \<open>_registerTargets\<close> has replaced itself
  by the empty function. Every method that logs dereferences \<open>_logger\<close> without a test,
  so a node that builds has a logger: \<open>logger\<close> is the list of calls made on it. The
  profiler is optional, as in the code. \<open>invoked\<close> records the addresses of the
  technologies whose \<open>build()\<close> has been called, in call order. \<open>fail_handlers\<close>
  are the handlers that \<open>requireSources\<close> has attached by \<open>fail\<close> to the promises
  build routines returned and that have not run: each with the source it will reject and
  the futures the promise waits for.
\<close>

record 'v node =
  path :: string
  targetName :: string
  techs :: "'v Tech list"
  targetNames :: "(string \<times> 'v target) list"
  targetNamesToBuild :: "string list"
  targetNamesToClean :: "string list"
  registered :: bool
  logger :: "log_event list"
  profiler :: "profile_event list option"
  tech_started :: "nat list"
  invoked :: "nat list"
  fail_handlers :: "(string \<times> future list) list"

text \<open>The constructor; \<open>baseName\<close> is \<open>path.basename(nodePath)\<close>.\<close>

definition Node_new :: "string \<Rightarrow> string \<Rightarrow> 'v node" where
  "Node_new nodePath baseName =
     \<lparr>path = nodePath, targetName = baseName, techs = [], targetNames = [],
      targetNamesToBuild = [], targetNamesToClean = [], registered = False,
      logger = [], profiler = None, tech_started = [], invoked = [], fail_handlers = []\<rparr>"

definition setTechs :: "'v Tech list \<Rightarrow> 'v node \<Rightarrow> 'v node" where
  "setTechs ts n = n\<lparr>techs := ts\<rparr>"


definition setProfiler :: "'v node \<Rightarrow> 'v node" where
  "setProfiler n = n\<lparr>profiler := Some []\<rparr>"

definition logCall :: "log_event \<Rightarrow> 'v node \<Rightarrow> 'v node" where
  "logCall ev n = n\<lparr>logger := logger n @ [ev]\<rparr>"

definition profileCall :: "profile_event \<Rightarrow> 'v node \<Rightarrow> 'v node" where
  "profileCall ev n =
     (case profiler n of None \<Rightarrow> n | Some evs \<Rightarrow> n\<lparr>profiler := Some (evs @ [ev])\<rparr>)"

text \<open>
  \<open>unmaskTargetName\<close> is \<^verbatim>\<open>targetName.replace(/\?/g, this._targetName)\<close>: every
  \<open>?\<close> is replaced. The base name is given as a replacement string, in which
  \<open>String.prototype.replace\<close> reads \<open>$$\<close> as a dollar sign, \<open>$&\<close> as the matched
  text, \<open>$\<close> with a backquote as the part of the target name before the match and \<open>$\<close>
  with an apostrophe as the part after it; the pattern has no group, so any other \<open>$\<close>
  stands for itself.
\<close>

fun substitution :: "string \<Rightarrow> string \<Rightarrow> string \<Rightarrow> string \<Rightarrow> string" where
  "substitution [] matched before after = []"
| "substitution [c] matched before after = [c]"
| "substitution (c # d # rest) matched before after =
     (if c = CHR ''$'' \<and> d = CHR ''$'' then CHR ''$'' # substitution rest matched before after
      else if c = CHR ''$'' \<and> d = CHR ''&'' then matched @ substitution rest matched before after
      else if c = CHR ''$'' \<and> d = CHR 0x60 then before @ substitution rest matched before after
      else if c = CHR ''$'' \<and> d = CHR 0x27 then after @ substitution rest matched before after
      else c # substitution (d # rest) matched before after)"

fun unmask_from :: "string \<Rightarrow> string \<Rightarrow> string \<Rightarrow> string" where
  "unmask_from replacement before [] = []"
| "unmask_from replacement before (c # rest) =
     (if c = CHR ''?'' then substitution replacement ''?'' before rest else [c])
       @ unmask_from replacement (before @ [c]) rest"

definition unmaskTargetName :: "'v node \<Rightarrow> string \<Rightarrow> string" where
  "unmaskTargetName n s = unmask_from (targetName n) [] s"

definition new_target :: "'v target" where
  "new_target = \<lparr>tech = None, started = False, isValid = False, deferred = Pending\<rparr>"

text \<open>
  \<open>_getTarget\<close>: the entry under the name, created when the read finds nothing. This is
  the method on a name that is the object's own key or no key at all; on a name of
  \<open>inherited_names\<close> the read finds the inherited value and no entry is made, for which
  see \<open>resolveTarget_call\<close> and \<open>rejectTarget_call\<close> below.
\<close>

definition getTarget :: "string \<Rightarrow> 'v node \<Rightarrow> 'v target \<times> 'v node" where
  "getTarget nm n =
     (case map_of (targetNames n) nm of
        Some t \<Rightarrow> (t, n)
      | None \<Rightarrow> (new_target, n\<lparr>targetNames := targetNames n @ [(nm, new_target)]\<rparr>))"

text \<open>A write to a field of the target object held under the name.\<close>

definition setTarget :: "string \<Rightarrow> 'v target \<Rightarrow> 'v node \<Rightarrow> 'v node" where
  "setTarget nm t n = n\<lparr>targetNames := AList.update nm t (targetNames n)\<rparr>"

text \<open>\<open>hasRegisteredTarget\<close> is \<^verbatim>\<open>!!this._targetNames[name]\<close>.\<close>

definition hasRegisteredTarget :: "string \<Rightarrow> 'v node \<Rightarrow> bool" where
  "hasRegisteredTarget nm n =
     (case read_property (map_of (targetNames n) nm) nm of Undefined \<Rightarrow> False | _ \<Rightarrow> True)"

text \<open>
  \<open>_registerTarget\<close>: throws when the entry already has a technology. The result is the
  error thrown, if any, and the node as the call leaves it.
\<close>

definition concurrent_techs_message :: "string \<Rightarrow> string \<Rightarrow> string \<Rightarrow> string" where
  "concurrent_techs_message tgt old_name new_name =
     ''Concurrent techs for target: '' @ tgt @ '', techs: '' @ [CHR 0x22] @ old_name @ [CHR 0x22]
       @ '' vs '' @ [CHR 0x22] @ new_name @ [CHR 0x22]"

definition registerTarget :: "string \<Rightarrow> 'v Tech \<Rightarrow> 'v node \<Rightarrow> error option \<times> 'v node" where
  "registerTarget tgt tc n =
     (let (targetObj, n1) = getTarget tgt n
      in case tech targetObj of
           Some old \<Rightarrow> (Some (Error (concurrent_techs_message tgt (getName old) (getName tc))), n1)
         | None \<Rightarrow> (None, setTarget tgt (targetObj\<lparr>tech := Some tc\<rparr>) n1))"

text \<open>The two nested \<open>forEach\<close> loops of \<open>_registerTargets\<close>; a throw ends both.\<close>

fun registerTargets_of :: "'v Tech \<Rightarrow> string list \<Rightarrow> 'v node \<Rightarrow> error option \<times> 'v node" where
  "registerTargets_of tc [] n = (None, n)"
| "registerTargets_of tc (tgt # rest) n =
     (case registerTarget tgt tc n of
        (Some e, n1) \<Rightarrow> (Some e, n1)
      | (None, n1) \<Rightarrow> registerTargets_of tc rest n1)"

fun registerTargets_loop :: "'v Tech list \<Rightarrow> 'v node \<Rightarrow> error option \<times> 'v node" where
  "registerTargets_loop [] n = (None, n)"
| "registerTargets_loop (tc # rest) n =
     (case registerTargets_of tc (getTargets tc) n of
        (Some e, n1) \<Rightarrow> (Some e, n1)
      | (None, n1) \<Rightarrow> registerTargets_loop rest n1)"

definition registerTargets :: "'v node \<Rightarrow> error option \<times> 'v node" where
  "registerTargets n =
     (if registered n then (None, n)
      else case registerTargets_loop (techs n) n of
             (Some e, n1) \<Rightarrow> (Some e, n1)
           | (None, n1) \<Rightarrow> (None, n1\<lparr>registered := True\<rparr>))"

text \<open>\<open>resolveTarget\<close>, \<open>isValidTarget\<close> and \<open>rejectTarget\<close>, like \<open>_getTarget\<close> on
  a name that is not inherited. The promise that \<open>resolveTarget\<close> and \<open>rejectTarget\<close>
  return is the target's own.\<close>

definition resolveTarget :: "string \<Rightarrow> 'v \<Rightarrow> 'v node \<Rightarrow> 'v node" where
  "resolveTarget tgt v n =
     (let (targetObj, n1) = getTarget tgt n;
          n2 = profileCall (SetEndTime tgt) n1;
          n3 = (if \<not> isValid targetObj
                then logCall (LogAction ''rebuild'' tgt (map_option getName (tech targetObj))) n2
                else n2)
      in setTarget tgt (targetObj\<lparr>deferred := defer_resolve v (deferred targetObj)\<rparr>) n3)"

definition isValidTarget :: "string \<Rightarrow> 'v node \<Rightarrow> 'v node" where
  "isValidTarget tgt n =
     (let (targetObj, n1) = getTarget tgt n;
          n2 = logCall (LogIsValid tgt (map_option getName (tech targetObj))) n1
      in setTarget tgt (targetObj\<lparr>isValid := True\<rparr>) n2)"

definition rejectTarget :: "string \<Rightarrow> error \<Rightarrow> 'v node \<Rightarrow> 'v node" where
  "rejectTarget tgt err n =
     (let (targetObj, n1) = getTarget tgt n;
          n2 = logCall (LogErrorAction ''failed'' tgt (map_option getName (tech targetObj))) n1
      in setTarget tgt (targetObj\<lparr>deferred := defer_reject err (deferred targetObj)\<rparr>) n2)"

text \<open>
  \<open>resolveTarget\<close> and \<open>rejectTarget\<close> as a caller finds them on any name. When
  \<open>_targetNames\<close> has no own entry under a name of \<open>inherited_names\<close>, \<open>_getTarget\<close>
  returns the inherited value and makes no entry; the methods call the profiler and the
  logger (the inherited value is taken as the engine provides it, with no \<open>isValid\<close> and
  no \<open>tech\<close>) and then throw at \<^verbatim>\<open>targetObj.deferred.resolve\<close>, respectively
  \<^verbatim>\<open>targetObj.deferred.reject\<close>. The result is the error thrown, if any, and the node
  as the call leaves it.
\<close>

definition reading_undefined :: "string \<Rightarrow> error" where
  "reading_undefined prop =
     TypeError (''Cannot read properties of undefined (reading '' @ [CHR 0x27] @ prop @ [CHR 0x27] @ '')'')"

definition resolveTarget_call :: "string \<Rightarrow> 'v \<Rightarrow> 'v node \<Rightarrow> error option \<times> 'v node" where
  "resolveTarget_call tgt v n =
     (case read_property (map_of (targetNames n) tgt) tgt of
        Inherited key \<Rightarrow>
          (Some (reading_undefined ''resolve''),
           logCall (LogAction ''rebuild'' tgt None) (profileCall (SetEndTime tgt) n))
      | _ \<Rightarrow> (None, resolveTarget tgt v n))"

definition rejectTarget_call :: "string \<Rightarrow> error \<Rightarrow> 'v node \<Rightarrow> error option \<times> 'v node" where
  "rejectTarget_call tgt err n =
     (case read_property (map_of (targetNames n) tgt) tgt of
        Inherited key \<Rightarrow>
          (Some (reading_undefined ''reject''),
           logCall (LogErrorAction ''failed'' tgt None) n)
      | _ \<Rightarrow> (None, rejectTarget tgt err n))"

definition future_state :: "'v node \<Rightarrow> future \<Rightarrow> 'v promise" where
  "future_state n fut =
     (case fut of
        RejectedPromise e \<Rightarrow> Rejected e
      | TargetPromise nm \<Rightarrow>
          (case map_of (targetNames n) nm of Some t \<Rightarrow> deferred t | None \<Rightarrow> Pending))"

definition not_found_message :: "(string \<Rightarrow> string \<Rightarrow> string) \<Rightarrow> string \<Rightarrow> string \<Rightarrow> string" where
  "not_found_message J node_path source = ''There is no tech for target '' @ J node_path (source @ ''.'')"

text \<open>
  \<^verbatim>\<open>Vow.when(promise).fail(err => _this.rejectTarget(source, err))\<close>: the handler is kept
  with the futures the promise waits for.
\<close>

definition on_fail :: "string \<Rightarrow> future list \<Rightarrow> 'v node \<Rightarrow> 'v node" where
  "on_fail source futs n = n\<lparr>fail_handlers := fail_handlers n @ [(source, futs)]\<rparr>"

text \<open>
  \<open>requireSources\<close>. \<open>J\<close> is \<open>path.join\<close>. A build routine may call
  \<open>requireSources\<close> again before it returns, so the calls nest; \<open>fuel\<close> bounds the
  nesting depth of build routines, and \<open>None\<close> means the bound was reached.
  \<open>requireSource\<close> is the callback given to \<open>sources.map\<close>, \<open>requireSources_map\<close>
  the \<open>map\<close>, and \<open>run_calls\<close> runs the calls a build routine (or the environment)
  makes on the node, up to the first one that throws. Whatever the routine throws, in one
  of its calls or by itself, goes to the \<open>catch\<close> block; a routine that returns the
  promise of its last \<open>requireSources\<close> gets the \<open>fail\<close> handler attached to it.
\<close>

function (sequential) requireSource :: "(string \<Rightarrow> string \<Rightarrow> string) \<Rightarrow> nat \<Rightarrow> string \<Rightarrow> 'v node \<Rightarrow> (future \<times> 'v node) option"
and requireSources_map :: "(string \<Rightarrow> string \<Rightarrow> string) \<Rightarrow> nat \<Rightarrow> string list \<Rightarrow> 'v node \<Rightarrow> (future list \<times> 'v node) option"
and requireSources :: "(string \<Rightarrow> string \<Rightarrow> string) \<Rightarrow> nat \<Rightarrow> string list \<Rightarrow> 'v node \<Rightarrow> ((error + future list) \<times> 'v node) option"
and run_calls :: "(string \<Rightarrow> string \<Rightarrow> string) \<Rightarrow> nat \<Rightarrow> 'v call list \<Rightarrow> 'v node \<Rightarrow> (error option \<times> 'v node) option"
where
  "requireSource J fuel source0 n =
     (let source = unmaskTargetName n source0;
          (targetObj, n1) = getTarget source n
      in case tech targetObj of
           None \<Rightarrow>
             Some (RejectedPromise (TargetNotFoundError (not_found_message J (path n1) source)), n1)
         | Some tc \<Rightarrow>
             if started targetObj then Some (TargetPromise source, n1)
             else
               let n2 = profileCall (SetStartTime source (getName tc)) n1;
                   n3 = setTarget source (targetObj\<lparr>started := True\<rparr>) n2
               in if tech_addr tc \<in> set (tech_started n3) then Some (TargetPromise source, n3)
                  else
                    (case fuel of
                       0 \<Rightarrow> None
                     | Suc fuel' \<Rightarrow>
                         (case run_calls J fuel' (build_calls tc)
                                 (n3\<lparr>tech_started := tech_addr tc # tech_started n3,
                                     invoked := invoked n3 @ [tech_addr tc]\<rparr>) of
                            None \<Rightarrow> None
                          | Some (Some err, n4) \<Rightarrow> Some (TargetPromise source, rejectTarget source err n4)
                          | Some (None, n4) \<Rightarrow>
                              (case build_throws tc of
                                 Some err \<Rightarrow> Some (TargetPromise source, rejectTarget source err n4)
                               | None \<Rightarrow>
                                   (case build_returns tc of
                                      None \<Rightarrow> Some (TargetPromise source, n4)
                                    | Some srcs \<Rightarrow>
                                        (case requireSources J fuel' srcs n4 of
                                           None \<Rightarrow> None
                                         | Some (Inl err, n5) \<Rightarrow>
                                             Some (TargetPromise source, rejectTarget source err n5)
                                         | Some (Inr futs, n5) \<Rightarrow>
                                             Some (TargetPromise source, on_fail source futs n5)))))))"
| "requireSources_map J fuel [] n = Some ([], n)"
| "requireSources_map J fuel (source # rest) n =
     (case requireSource J fuel source n of
        None \<Rightarrow> None
      | Some (fut, n1) \<Rightarrow>
          (case requireSources_map J fuel rest n1 of
             None \<Rightarrow> None
           | Some (futs, n2) \<Rightarrow> Some (fut # futs, n2)))"
| "requireSources J fuel sources n =
     (case registerTargets n of
        (Some e, n1) \<Rightarrow> Some (Inl e, n1)
      | (None, n1) \<Rightarrow>
          (case requireSources_map J fuel sources n1 of
             None \<Rightarrow> None
           | Some (futs, n2) \<Rightarrow> Some (Inr futs, n2)))"
| "run_calls J fuel [] n = Some (None, n)"
| "run_calls J fuel (c # rest) n =
     (case c of
        RequireSources sources \<Rightarrow>
          (case requireSources J fuel sources n of
             None \<Rightarrow> None
           | Some (Inl e, n1) \<Rightarrow> Some (Some e, n1)
           | Some (Inr futs, n1) \<Rightarrow> run_calls J fuel rest n1)
      | ResolveTarget tgt v \<Rightarrow> run_calls J fuel rest (resolveTarget tgt v n)
      | RejectTarget tgt err \<Rightarrow> run_calls J fuel rest (rejectTarget tgt err n)
      | IsValidTarget tgt \<Rightarrow> run_calls J fuel rest (isValidTarget tgt n))"

  by pat_completeness auto

termination
  by (relation "measures
        [case_sum (case_sum (\<lambda>(J, fuel, s, n). fuel) (\<lambda>(J, fuel, s, n). fuel))
                  (case_sum (\<lambda>(J, fuel, s, n). fuel) (\<lambda>(J, fuel, s, n). fuel)),
         case_sum (case_sum (\<lambda>p. 0) (\<lambda>p. 1)) (case_sum (\<lambda>p. 2) (\<lambda>p. 3)),
         case_sum (case_sum (\<lambda>p. 0) (\<lambda>(J, fuel, s, n). length s))
                  (case_sum (\<lambda>p. 0) (\<lambda>(J, fuel, s, n). length s))]")
     auto




text \<open>
  \<open>Object.keys\<close> on \<open>_targetNames\<close>: keys that are array indices (canonical decimal
  numerals below \<open>2^32 - 1\<close>) come first in ascending numeric order, the other keys
  follow in insertion order.
\<close>

definition is_digit :: "char \<Rightarrow> bool" where
  "is_digit c = (48 \<le> (of_char c :: nat) \<and> (of_char c :: nat) \<le> 57)"

definition decimal_value :: "string \<Rightarrow> nat" where
  "decimal_value s = foldl (\<lambda>a c. 10 * a + (of_char c - 48)) 0 s"

definition is_array_index :: "string \<Rightarrow> bool" where
  "is_array_index s =
     (s \<noteq> [] \<and> list_all is_digit s \<and> (s = ''0'' \<or> take 1 s \<noteq> ''0'')
      \<and> decimal_value s < 4294967295)"

definition object_keys :: "(string \<times> 'a) list \<Rightarrow> string list" where
  "object_keys al =
     (let ks = map fst al
      in sort_key decimal_value (filter is_array_index ks) @ filter (\<lambda>k. \<not> is_array_index k) ks)"

text \<open>
  \<open>uniq\<close> of lodash: a value is pushed onto the result unless the result already holds
  it, so the first occurrence of each value is the one kept.
\<close>

fun uniq_loop :: "'a list \<Rightarrow> 'a list \<Rightarrow> 'a list" where
  "uniq_loop [] res = res"
| "uniq_loop (x # xs) res = uniq_loop xs (if x \<in> set res then res else res @ [x])"

definition uniq :: "'a list \<Rightarrow> 'a list" where
  "uniq xs = uniq_loop xs []"

text \<open>
  \<open>_expandTargets\<close> and \<open>_resolveTargets\<close>. \<open>flatten\<close> of lodash removes one level
  of nesting; \<open>targets\<close> is \<open>None\<close> when the caller passes no list.
\<close>

definition expandTargets :: "string list \<Rightarrow> string list \<Rightarrow> 'v node \<Rightarrow> string list" where
  "expandTargets targets defaultTargetList n =
     (let allTargets = (if defaultTargetList = [] then object_keys (targetNames n)
                        else defaultTargetList)
      in concat (map (\<lambda>tgt. if tgt = ''*'' then allTargets else [tgt]) targets))"

definition resolveTargets :: "string list option \<Rightarrow> string list \<Rightarrow> 'v node \<Rightarrow> string list" where
  "resolveTargets targets defaultTargetList n =
     uniq (case targets of
             Some ts \<Rightarrow> expandTargets ts defaultTargetList n
           | None \<Rightarrow> targetNamesToBuild n)"


datatype build_promise = BuildPromise (awaited: "future list") (builtTargets: "string list")

definition build :: "(string \<Rightarrow> string \<Rightarrow> string) \<Rightarrow> nat \<Rightarrow> string list option \<Rightarrow> 'v node
    \<Rightarrow> ((error + build_promise) \<times> 'v node) option" where
  "build J fuel targets n =
     (let targetsToBuild = resolveTargets targets (targetNamesToBuild n) n
      in case requireSources J fuel targetsToBuild n of
           None \<Rightarrow> None
         | Some (Inl e, n1) \<Rightarrow> Some (Inl e, n1)
         | Some (Inr futs, n1) \<Rightarrow>
             Some (Inr (BuildPromise futs (map (J (path n)) targetsToBuild)), n1))"


text \<open>
  The specification's wording of the target list, to compare \<open>_resolveTargets\<close> with:
  every \<open>*\<close> is replaced by the default list or, when that is empty, by the registered
  names; then each name is kept where it is first seen.
\<close>

fun expand_star :: "string list \<Rightarrow> string list \<Rightarrow> string list \<Rightarrow> string list" where
  "expand_star dflt names [] = []"
| "expand_star dflt names (t # ts) =
     (if t = ''*'' then (if dflt = [] then names else dflt) else [t]) @ expand_star dflt names ts"

fun first_seen :: "'a list \<Rightarrow> 'a list" where
  "first_seen [] = []"
| "first_seen (x # xs) = x # first_seen (filter (\<lambda>y. y \<noteq> x) xs)"

section \<open>A sample node\<close>

text \<open>
  The node \<open>pages/index\<close> with four technologies, used to evaluate the model:
  \<open>js\<close> requires \<open>?.css\<close> and resolves its target, \<open>css\<close> finds its target valid,
  \<open>boom\<close> throws at once, \<open>late\<close> resolves its target and then throws.
  \<open>join_slash\<close> is \<open>path.join\<close> on two segments that need no normalisation.
\<close>

definition join_slash :: "string \<Rightarrow> string \<Rightarrow> string" where
  "join_slash a b = a @ ''/'' @ b"

definition tech_js :: "nat Tech" where
  "tech_js = \<lparr>tech_addr = 1, getName = ''js'', getTargets = [''index.js''],
      build_calls = [RequireSources [''?.css''], ResolveTarget ''index.js'' 5], build_throws = None,
      build_returns = None\<rparr>"

definition tech_css :: "nat Tech" where
  "tech_css = \<lparr>tech_addr = 2, getName = ''css'', getTargets = [''index.css''],
      build_calls = [IsValidTarget ''index.css'', ResolveTarget ''index.css'' 7], build_throws = None,
      build_returns = None\<rparr>"

definition tech_boom :: "nat Tech" where
  "tech_boom = \<lparr>tech_addr = 3, getName = ''boom'', getTargets = [''boom.js''],
      build_calls = [], build_throws = Some (Error ''boom''),
      build_returns = None\<rparr>"

definition tech_late :: "nat Tech" where
  "tech_late = \<lparr>tech_addr = 4, getName = ''late'', getTargets = [''late.js''],
      build_calls = [ResolveTarget ''late.js'' 9], build_throws = Some (Error ''late''),
      build_returns = None\<rparr>"

definition sample_node :: "nat node" where
  "sample_node = setTechs [tech_js, tech_css, tech_boom, tech_late] (Node_new ''pages/index'' ''index'')"

text \<open>The sample node once it has registered its targets.\<close>

definition registered_sample :: "nat node" where
  "registered_sample = snd (registerTargets sample_node)"

text \<open>A node on which two technologies declare \<open>index.js\<close>.\<close>

definition tech_js2 :: "nat Tech" where
  "tech_js2 = \<lparr>tech_addr = 5, getName = ''js2'', getTargets = [''index.js''],
      build_calls = [], build_throws = None,
      build_returns = None\<rparr>"

definition conflict_node :: "nat node" where
  "conflict_node = setTechs [tech_js, tech_js2] (Node_new ''pages/index'' ''index'')"








text \<open>The sample node once \<open>?.css\<close> and the unknown \<open>zz\<close> have been required together.\<close>

definition after_css_zz :: "nat node" where
  "after_css_zz = snd (the (requireSources join_slash 4 [''?.css'', ''zz''] sample_node))"



section \<open>FileList (lib/file-list.js)\<close>

text \<open>
  A file description as built by \<open>getFileInfo\<close>:
  \<^verbatim>\<open>{ name, fullname, suffix, mtime, isDirectory }\<close>.
\<close>

record file_info =
  name :: string
  fullname :: string
  suffix :: string
  mtime :: nat
  isDirectory :: bool

text \<open>
  The three fields set by the constructor. \<open>bySuffix\<close> holds the own properties of the
  object used as a dictionary from suffix to the array of files pushed under it.
\<close>

record FileList =
  items :: "file_info list"
  slices :: "file_info list list"
  bySuffix :: "string \<rightharpoonup> file_info list"

definition FileList_new :: FileList where
  "FileList_new = \<lparr>items = [], slices = [], bySuffix = Map.empty\<rparr>"

text \<open>
  The body of the \<open>for\<close> loop of \<open>addFiles\<close>, for one file:
  \<^verbatim>\<open>(this.bySuffix[file.suffix] || (this.bySuffix[file.suffix] = [])).push(file)\<close> after
  the push onto \<open>items\<close>. Under a suffix of \<open>inherited_names\<close> the read finds the
  inherited value, which has no \<open>push\<close>: the call throws (the engine's message names
  the callee by the whole expression, abridged here). The result is the error thrown, if
  any, and the list as the call leaves it.
\<close>

definition not_a_function :: "string \<Rightarrow> error" where
  "not_a_function callee = TypeError (callee @ '' is not a function'')"

definition addFile :: "file_info \<Rightarrow> FileList \<Rightarrow> error option \<times> FileList" where
  "addFile file fl =
     (let fl1 = fl\<lparr>items := items fl @ [file]\<rparr>
      in case read_property (bySuffix fl1 (suffix file)) (suffix file) of
           Own fs \<Rightarrow> (None, fl1\<lparr>bySuffix := (bySuffix fl1)(suffix file \<mapsto> fs @ [file])\<rparr>)
         | Undefined \<Rightarrow> (None, fl1\<lparr>bySuffix := (bySuffix fl1)(suffix file \<mapsto> [file])\<rparr>)
         | Inherited key \<Rightarrow> (Some (not_a_function ''push''), fl1))"

fun addFiles_loop :: "file_info list \<Rightarrow> FileList \<Rightarrow> error option \<times> FileList" where
  "addFiles_loop [] fl = (None, fl)"
| "addFiles_loop (file # rest) fl =
     (case addFile file fl of
        (Some e, fl1) \<Rightarrow> (Some e, fl1)
      | (None, fl1) \<Rightarrow> addFiles_loop rest fl1)"

definition addFiles :: "file_info list \<Rightarrow> FileList \<Rightarrow> error option \<times> FileList" where
  "addFiles files fl = addFiles_loop files (fl\<lparr>slices := slices fl @ [files]\<rparr>)"

text \<open>
  The argument of \<open>getBySuffix\<close> is a string or an array of strings. Its result is an
  array of files or, from the read \<^verbatim>\<open>this.bySuffix[suffix] || []\<close> under a suffix of
  \<open>inherited_names\<close>, the inherited value.
\<close>

datatype suffix_arg = Str string | Arr "string list"

datatype suffix_result = Files "file_info list" | InheritedValue string

text \<open>The inner \<open>for\<close> loop and the \<open>forEach\<close> over the slices, pushing onto \<open>res\<close>.\<close>

fun collect_slice :: "string list \<Rightarrow> file_info list \<Rightarrow> file_info list \<Rightarrow> file_info list" where
  "collect_slice suffixes [] res = res"
| "collect_slice suffixes (file # rest) res =
     collect_slice suffixes rest (if suffix file \<in> set suffixes then res @ [file] else res)"

fun collect_slices :: "string list \<Rightarrow> file_info list list \<Rightarrow> file_info list \<Rightarrow> file_info list" where
  "collect_slices suffixes [] res = res"
| "collect_slices suffixes (slice # rest) res =
     collect_slices suffixes rest (collect_slice suffixes slice res)"

definition getBySuffix :: "suffix_arg \<Rightarrow> FileList \<Rightarrow> suffix_result" where
  "getBySuffix suffix0 fl =
     (let suffix1 = (case suffix0 of Arr [s] \<Rightarrow> Str s | _ \<Rightarrow> suffix0)
      in case suffix1 of
           Arr suffixes \<Rightarrow> Files (collect_slices suffixes (slices fl) [])
         | Str s \<Rightarrow>
             (case read_property (bySuffix fl s) s of
                Own fs \<Rightarrow> Files fs
              | Undefined \<Rightarrow> Files []
              | Inherited key \<Rightarrow> InheritedValue key))"

text \<open>
  A sequence of \<open>addFiles\<close> calls on a FileList, up to the first that throws; \<open>addAll\<close>
  makes them on a new FileList.
\<close>

fun addAll_loop :: "file_info list list \<Rightarrow> FileList \<Rightarrow> error option \<times> FileList" where
  "addAll_loop [] fl = (None, fl)"
| "addAll_loop (files # rest) fl =
     (case addFiles files fl of
        (Some e, fl1) \<Rightarrow> (Some e, fl1)
      | (None, fl1) \<Rightarrow> addAll_loop rest fl1)"

definition addAll :: "file_info list list \<Rightarrow> error option \<times> FileList" where
  "addAll batches = addAll_loop batches FileList_new"

section \<open>The technologies bemdecl-merge and deps (techs/)\<close>

text \<open>
  What a technology's build routine touches besides the node: the files on disk, the
  node cache of its target, and the modules it loads. \<open>effects\<close> records, in order, the
  writes to disk and to the cache and the notifications sent to the node.
\<close>

record disk_file =
  data :: string
  modified :: nat

datatype cache_entry =
    FileEntry string "nat option"
  | FileListEntry "(string \<times> nat) list"

datatype effect =
    Loaded string
  | Wrote string
  | WriteFailed string
  | CachedFileInfo string string
  | CachedFileList string
  | MarkedValid string
  | Resolved string

record 'v world =
  disk :: "string \<rightharpoonup> disk_file"
  clock :: nat
  read_only :: "string list"
  cache :: "string \<rightharpoonup> cache_entry"
  the_node :: "'v node"
  effects :: "effect list"

definition emit :: "effect \<Rightarrow> 'v world \<Rightarrow> 'v world" where
  "emit ev w = w\<lparr>effects := effects w @ [ev]\<rparr>"

text \<open>
  Modelled from the spec: the cache store (lib/cache/cache), which is not among the source
  files. \<open>needRebuildFile\<close> is true when the key has no record, when the file is absent,
  or when its modification time differs from the recorded one; \<open>cacheFileInfo\<close>
  overwrites the record with the state on disk. The same for a list of files, compared by
  name and modification time.
\<close>

definition needRebuildFile :: "'v world \<Rightarrow> string \<Rightarrow> string \<Rightarrow> bool" where
  "needRebuildFile w key filePath =
     (case cache w key of
        Some (FileEntry p mt) \<Rightarrow>
          (case disk w filePath of
             None \<Rightarrow> True
           | Some f \<Rightarrow> p \<noteq> filePath \<or> mt \<noteq> Some (modified f))
      | _ \<Rightarrow> True)"

definition cacheFileInfo :: "string \<Rightarrow> string \<Rightarrow> 'v world \<Rightarrow> 'v world" where
  "cacheFileInfo key filePath w =
     emit (CachedFileInfo key filePath)
       (w\<lparr>cache := (cache w)(key \<mapsto> FileEntry filePath (map_option modified (disk w filePath)))\<rparr>)"

definition needRebuildFileList :: "'v world \<Rightarrow> string \<Rightarrow> file_info list \<Rightarrow> bool" where
  "needRebuildFileList w key files =
     (case cache w key of
        Some (FileListEntry l) \<Rightarrow> l \<noteq> map (\<lambda>f. (fullname f, mtime f)) files
      | _ \<Rightarrow> True)"

definition cacheFileList :: "string \<Rightarrow> file_info list \<Rightarrow> 'v world \<Rightarrow> 'v world" where
  "cacheFileList key files w =
     emit (CachedFileList key)
       (w\<lparr>cache := (cache w)(key \<mapsto> FileListEntry (map (\<lambda>f. (fullname f, mtime f)) files))\<rparr>)"

text \<open>
  Modelled from the spec: the file-system abstraction (lib/fs/async-fs) and the module
  loader. \<open>write\<close> fails on the paths of \<open>read_only\<close> and otherwise stores the content
  with a new modification time; \<open>require_module\<close>, after the require cache is dropped,
  reads the file again and throws when there is none.
\<close>

definition write_file :: "string \<Rightarrow> string \<Rightarrow> 'v world \<Rightarrow> error option \<times> 'v world" where
  "write_file filePath content w =
     (if filePath \<in> set (read_only w)
      then (Some (Error (''EACCES: '' @ filePath)), emit (WriteFailed filePath) w)
      else (None, emit (Wrote filePath)
                    (w\<lparr>disk := (disk w)(filePath \<mapsto> \<lparr>data = content, modified = clock w\<rparr>),
                       clock := Suc (clock w)\<rparr>)))"

definition require_module :: "string \<Rightarrow> 'v world \<Rightarrow> (error + string) \<times> 'v world" where
  "require_module filePath w =
     (case disk w filePath of
        None \<Rightarrow> (Inl (Error (''Cannot find module '' @ filePath)), w)
      | Some f \<Rightarrow> (Inr (data f), emit (Loaded filePath) w))"

text \<open>
  What the technologies take from elsewhere: \<open>resolvePath\<close> of the node, and the
  functions of lib/deps on the loaded modules (\<open>merge_deps\<close> for
  \<open>deps.merge\<close> after \<open>deps.fromBemdecl\<close>, \<open>resolve_deps\<close> for the \<open>DepsResolver\<close>,
  which may throw, \<open>render\<close> for the text written, \<open>deps_of\<close> for the \<open>deps\<close> field
  of a module).
\<close>

record 'v tech_env =
  resolvePath :: "string \<Rightarrow> string"
  merge_deps :: "string list \<Rightarrow> 'v"
  resolve_deps :: "string \<Rightarrow> file_info list \<Rightarrow> error + 'v"
  render :: "'v \<Rightarrow> string"
  deps_of :: "string \<Rightarrow> 'v"

definition notify_resolved :: "string \<Rightarrow> 'v \<Rightarrow> 'v world \<Rightarrow> 'v world" where
  "notify_resolved tgt v w = emit (Resolved tgt) (w\<lparr>the_node := resolveTarget tgt v (the_node w)\<rparr>)"

definition notify_valid :: "string \<Rightarrow> 'v world \<Rightarrow> 'v world" where
  "notify_valid tgt w = emit (MarkedValid tgt) (w\<lparr>the_node := isValidTarget tgt (the_node w)\<rparr>)"

text \<open>The \<open>forEach\<close> loops of bemdecl-merge over its sources.\<close>

fun any_source_changed :: "'v tech_env \<Rightarrow> 'v world \<Rightarrow> string list \<Rightarrow> bool \<Rightarrow> bool" where
  "any_source_changed env w [] rebuildNeeded = rebuildNeeded"
| "any_source_changed env w (source # rest) rebuildNeeded =
     any_source_changed env w rest
       (if needRebuildFile w source (resolvePath env source) then True else rebuildNeeded)"

fun require_sources :: "'v tech_env \<Rightarrow> string list \<Rightarrow> string list \<Rightarrow> 'v world
    \<Rightarrow> (error + string list) \<times> 'v world" where
  "require_sources env [] bemdeclResults w = (Inr bemdeclResults, w)"
| "require_sources env (source # rest) bemdeclResults w =
     (case require_module (resolvePath env source) w of
        (Inl e, w1) \<Rightarrow> (Inl e, w1)
      | (Inr m, w1) \<Rightarrow> require_sources env rest (bemdeclResults @ [m]) w1)"

fun cache_sources :: "'v tech_env \<Rightarrow> string list \<Rightarrow> 'v world \<Rightarrow> 'v world" where
  "cache_sources env [] w = w"
| "cache_sources env (source # rest) w =
     cache_sources env rest (cacheFileInfo source (resolvePath env source) w)"

text \<open>
  bemdecl-merge: the callback given to \<open>then\<close> once the sources are built. The result is
  the state of the promise the build routine returned (rejected when the callback throws
  or the write fails) and the world the callback leaves.
\<close>

definition bemdecl_merge_then :: "'v tech_env \<Rightarrow> string \<Rightarrow> string list \<Rightarrow> 'v world
    \<Rightarrow> unit promise \<times> 'v world" where
  "bemdecl_merge_then env bemdeclTarget sources w =
     (let bemdeclTargetPath = resolvePath env bemdeclTarget;
          rebuildNeeded0 = needRebuildFile w ''bemdecl-file'' bemdeclTargetPath;
          rebuildNeeded = (if \<not> rebuildNeeded0 then any_source_changed env w sources rebuildNeeded0
                           else rebuildNeeded0)
      in if rebuildNeeded then
           (case require_sources env sources [] w of
              (Inl e, w1) \<Rightarrow> (Rejected e, w1)
            | (Inr bemdeclResults, w1) \<Rightarrow>
                let mergedDeps = merge_deps env bemdeclResults
                in (case write_file bemdeclTargetPath (render env mergedDeps) w1 of
                      (Some e, w2) \<Rightarrow> (Rejected e, w2)
                    | (None, w2) \<Rightarrow>
                        let w3 = cacheFileInfo ''bemdecl-file'' bemdeclTargetPath w2;
                            w4 = cache_sources env sources w3
                        in (Fulfilled (), notify_resolved bemdeclTarget mergedDeps w4)))
         else
           (let w1 = notify_valid bemdeclTarget w
            in case require_module bemdeclTargetPath w1 of
                 (Inl e, w2) \<Rightarrow> (Rejected e, w2)
               | (Inr m, w2) \<Rightarrow> (Fulfilled (), notify_resolved bemdeclTarget (deps_of env m) w2)))"

text \<open>
  deps: the callback given to \<open>spread\<close>; \<open>depFiles\<close> is
  \<open>levels.getFilesBySuffix('deps.js')\<close>.
\<close>

definition deps_then :: "'v tech_env \<Rightarrow> string \<Rightarrow> string \<Rightarrow> file_info list \<Rightarrow> 'v world
    \<Rightarrow> unit promise \<times> 'v world" where
  "deps_then env depsTarget bemdeclSource depFiles w =
     (let depsTargetPath = resolvePath env depsTarget;
          bemdeclSourcePath = resolvePath env bemdeclSource
      in if needRebuildFile w ''deps-file'' depsTargetPath
            \<or> needRebuildFile w ''bemdecl-file'' bemdeclSourcePath
            \<or> needRebuildFileList w ''deps-file-list'' depFiles
         then
           (case require_module bemdeclSourcePath w of
              (Inl e, w1) \<Rightarrow> (Rejected e, w1)
            | (Inr bemdecl, w1) \<Rightarrow>
                (case resolve_deps env bemdecl depFiles of
                   Inl e \<Rightarrow> (Rejected e, w1)
                 | Inr resolvedDeps \<Rightarrow>
                     (case write_file depsTargetPath (render env resolvedDeps) w1 of
                        (Some e, w2) \<Rightarrow> (Rejected e, w2)
                      | (None, w2) \<Rightarrow>
                          let w3 = cacheFileInfo ''deps-file'' depsTargetPath w2;
                              w4 = cacheFileInfo ''bemdecl-file'' bemdeclSourcePath w3;
                              w5 = cacheFileList ''deps-file-list'' depFiles w4
                          in (Fulfilled (), notify_resolved depsTarget resolvedDeps w5))))
         else
           (let w1 = notify_valid depsTarget w
            in case require_module depsTargetPath w1 of
                 (Inl e, w2) \<Rightarrow> (Rejected e, w2)
               | (Inr m, w2) \<Rightarrow> (Fulfilled (), notify_resolved depsTarget (deps_of env m) w2)))"

text \<open>
  The property of a run of effects that the cache is written only after the output file:
  every cache write has the write of \<open>out\<close> before it.
\<close>

fun is_cache_write :: "effect \<Rightarrow> bool" where
  "is_cache_write (CachedFileInfo key p) = True"
| "is_cache_write (CachedFileList key) = True"
| "is_cache_write ev = False"

fun recorded_after_write :: "string \<Rightarrow> effect list \<Rightarrow> bool" where
  "recorded_after_write out [] = True"
| "recorded_after_write out (ev # rest) =
     (if ev = Wrote out then True
      else if is_cache_write ev then False
      else recorded_after_write out rest)"

text \<open>A sample world for the technologies: two source declarations on disk, an empty cache.\<close>

definition sample_env :: "nat tech_env" where
  "sample_env = \<lparr>resolvePath = (\<lambda>f. ''/p/'' @ f), merge_deps = (\<lambda>ms. length (concat ms)),
      resolve_deps = (\<lambda>m fs. Inr (length m + length fs)),
      render = (\<lambda>v. replicate v (CHR ''x'')), deps_of = length\<rparr>"

definition sample_world :: "nat world" where
  "sample_world = \<lparr>disk = [''/p/a.bemdecl.js'' \<mapsto> \<lparr>data = ''aa'', modified = 1\<rparr>,
                            ''/p/b.bemdecl.js'' \<mapsto> \<lparr>data = ''b'', modified = 2\<rparr>],
      clock = 5, read_only = [], cache = Map.empty, the_node = registered_sample, effects = []\<rparr>"

definition merged_world :: "nat world" where
  "merged_world =
     snd (bemdecl_merge_then sample_env ''all.bemdecl.js'' [''a.bemdecl.js'', ''b.bemdecl.js''] sample_world)"

section \<open>Notions used to state and prove the properties\<close>

text \<open>
  The entry under a name, and the entry \<open>_getTarget\<close> would return for it.
\<close>

definition target_at :: "'v node \<Rightarrow> string \<Rightarrow> 'v target option" where
  "target_at n nm = map_of (targetNames n) nm"

definition the_target :: "'v node \<Rightarrow> string \<Rightarrow> 'v target" where
  "the_target n nm = (case target_at n nm of Some t \<Rightarrow> t | None \<Rightarrow> new_target)"

text \<open>The technology bound to a name, if any.\<close>

definition binding :: "'v node \<Rightarrow> string \<Rightarrow> 'v Tech option" where
  "binding n nm = tech (the_target n nm)"

text \<open>
  The technologies bound to some target, and the number of technologies of the node (its
  list or its targets) not yet started. No nest of build routines is deeper than that,
  since a routine is entered only after its technology is marked started: it is the fuel
  that suffices.
\<close>

definition bound_techs :: "'v node \<Rightarrow> 'v Tech list" where
  "bound_techs n = concat (map (\<lambda>(nm, t). case tech t of None \<Rightarrow> [] | Some tc \<Rightarrow> [tc]) (targetNames n))"

definition pending_techs :: "'v node \<Rightarrow> nat" where
  "pending_techs n =
     length (remdups (filter (\<lambda>a. a \<notin> set (tech_started n)) (map tech_addr (techs n @ bound_techs n))))"

text \<open>
  The node at three points of the callback of \<open>requireSources\<close>, for a source whose
  unmasked name \<open>u\<close> has technology \<open>tc\<close>: after \<open>targetObj.started = true\<close>; after
  \<open>tech.__started = true\<close>, when \<open>build()\<close> is about to be called; and after the
  \<open>try\<close> statement, where \<open>thrown\<close> is what a call of \<open>build_calls\<close> threw and
  \<open>n\<close> the node those calls left.
\<close>

definition mark_started :: "string \<Rightarrow> 'v Tech \<Rightarrow> 'v node \<Rightarrow> 'v node" where
  "mark_started u tc n =
     setTarget u ((the_target n u)\<lparr>started := True\<rparr>)
       (profileCall (SetStartTime u (getName tc)) (snd (getTarget u n)))"

definition begin_build :: "string \<Rightarrow> 'v Tech \<Rightarrow> 'v node \<Rightarrow> 'v node" where
  "begin_build u tc n =
     (mark_started u tc n)\<lparr>tech_started := tech_addr tc # tech_started (mark_started u tc n),
                            invoked := invoked (mark_started u tc n) @ [tech_addr tc]\<rparr>"

definition end_build :: "(string \<Rightarrow> string \<Rightarrow> string) \<Rightarrow> nat \<Rightarrow> string \<Rightarrow> 'v Tech \<Rightarrow> error option \<Rightarrow> 'v node
    \<Rightarrow> 'v node option" where
  "end_build J fuel u tc thrown n =
     (case thrown of
        Some err \<Rightarrow> Some (rejectTarget u err n)
      | None \<Rightarrow>
          (case build_throws tc of
             Some err \<Rightarrow> Some (rejectTarget u err n)
           | None \<Rightarrow>
               (case build_returns tc of
                  None \<Rightarrow> Some n
                | Some srcs \<Rightarrow>
                    (case requireSources J fuel srcs n of
                       None \<Rightarrow> None
                     | Some (Inl err, n5) \<Rightarrow> Some (rejectTarget u err n5)
                     | Some (Inr futs, n5) \<Rightarrow> Some (on_fail u futs n5)))))"

text \<open>
  \<open>ext n n'\<close>: what holds between a node and the same node after any calls. Path, base
  name and technologies stay; registration is not undone; started flags, validity and
  bindings are never taken back; a settled future keeps its outcome; the record of
  invocations only grows; and once the node has registered, no entry gets a technology.
\<close>

definition entry_ext :: "bool \<Rightarrow> 'v target \<Rightarrow> 'v target \<Rightarrow> bool" where
  "entry_ext r t t' =
     ((started t \<longrightarrow> started t') \<and> (isValid t \<longrightarrow> isValid t')
      \<and> (deferred t \<noteq> Pending \<longrightarrow> deferred t' = deferred t)
      \<and> (tech t \<noteq> None \<or> r \<longrightarrow> tech t' = tech t))"

definition ext :: "'v node \<Rightarrow> 'v node \<Rightarrow> bool" where
  "ext n n' =
     (path n' = path n \<and> targetName n' = targetName n \<and> techs n' = techs n
      \<and> targetNamesToBuild n' = targetNamesToBuild n
      \<and> (registered n \<longrightarrow> registered n')
      \<and> set (tech_started n) \<subseteq> set (tech_started n')
      \<and> (\<exists>xs. invoked n' = invoked n @ xs)
      \<and> set (bound_techs n') \<subseteq> set (bound_techs n) \<union> set (techs n)
      \<and> (\<forall>nm t. target_at n nm = Some t \<longrightarrow>
             (\<exists>t'. target_at n' nm = Some t' \<and> entry_ext (registered n) t t'))
      \<and> (registered n \<longrightarrow>
             (\<forall>nm t'. target_at n nm = None \<longrightarrow> target_at n' nm = Some t' \<longrightarrow> tech t' = None)))"

text \<open>
  \<open>consistent\<close>: the record of invoked build routines agrees with the started flags.
  Each routine is recorded once, the technologies recorded are those marked started, and
  a started target has a technology that is marked started. A new node is consistent.
\<close>

definition consistent :: "'v node \<Rightarrow> bool" where
  "consistent n =
     (distinct (invoked n) \<and> set (invoked n) = set (tech_started n)
      \<and> (\<forall>nm t. target_at n nm = Some t \<longrightarrow> started t \<longrightarrow>
             (\<exists>tc. tech t = Some tc \<and> tech_addr tc \<in> set (tech_started n))))"

text \<open>A call that returns, extends the node and keeps it consistent.\<close>

definition good_step :: "'v node \<Rightarrow> ('a \<times> 'v node) option \<Rightarrow> bool" where
  "good_step n res = (\<exists>r n'. res = Some (r, n') \<and> ext n n' \<and> (consistent n \<longrightarrow> consistent n'))"

text \<open>Lists of files none of which has a suffix that is an inherited name.\<close>

definition ordinary_files :: "file_info list \<Rightarrow> bool" where
  "ordinary_files files = (\<forall>f \<in> set files. suffix f \<notin> set inherited_names)"



text \<open>Between two nodes, futures have only gone from pending to rejected.\<close>

definition only_rejects :: "'v node \<Rightarrow> 'v node \<Rightarrow> bool" where
  "only_rejects n n' =
     (\<forall>fut. future_state n' fut = future_state n fut
            \<or> (future_state n fut = Pending \<and> (\<exists>e. future_state n' fut = Rejected e)))"

text \<open>
  What is shown of a run of a build callback from world \<open>w\<close>, with output file \<open>out\<close>
  and target \<open>tgt\<close>, ending with promise state \<open>p\<close> in world \<open>w'\<close>.
\<close>

definition cache_discipline :: "string \<Rightarrow> string \<Rightarrow> 'v world \<Rightarrow> unit promise \<times> 'v world \<Rightarrow> bool" where
  "cache_discipline out tgt w res =
     (case res of (p, w') \<Rightarrow>
        (\<exists>evs. effects w' = effects w @ evs
           \<and> recorded_after_write out evs
           \<and> (cache w' \<noteq> cache w \<longrightarrow> p = Fulfilled () \<and> Wrote out \<in> set evs)
           \<and> (MarkedValid tgt \<in> set evs \<longrightarrow> cache w' = cache w)
           \<and> (\<forall>e. p = Rejected e \<longrightarrow> cache w' = cache w)))"

section \<open>FileList: lookup by suffix\<close>

lemma read_property_ordinary:
  "key \<notin> set inherited_names \<Longrightarrow>
   read_property own key = (case own of Some x \<Rightarrow> Own x | None \<Rightarrow> Undefined)"
  by (simp add: read_property_def)

lemma addFile_ordinary:
  "suffix file \<notin> set inherited_names \<Longrightarrow>
   addFile file fl =
     (None, fl\<lparr>items := items fl @ [file],
               bySuffix := (bySuffix fl)(suffix file \<mapsto>
                 (case bySuffix fl (suffix file) of None \<Rightarrow> [] | Some fs \<Rightarrow> fs) @ [file])\<rparr>)"
  by (simp add: addFile_def read_property_ordinary Let_def split: option.splits)

lemma addFiles_loop_bySuffix:
  "ordinary_files files \<Longrightarrow>
   \<exists>fl'. addFiles_loop files fl = (None, fl') \<and>
     bySuffix fl' s =
       (if bySuffix fl s = None \<and> filter (\<lambda>f. suffix f = s) files = [] then None
        else Some ((case bySuffix fl s of None \<Rightarrow> [] | Some fs \<Rightarrow> fs) @ filter (\<lambda>f. suffix f = s) files))"
proof (induction files arbitrary: fl)
  case Nil
  show ?case by auto
next
  case (Cons fi rest)
  have o: "suffix fi \<notin> set inherited_names" and r: "ordinary_files rest"
    using Cons.prems by (simp_all add: ordinary_files_def)
  let ?fl1 = "fl\<lparr>items := items fl @ [fi],
               bySuffix := (bySuffix fl)(suffix fi \<mapsto>
                 (case bySuffix fl (suffix fi) of None \<Rightarrow> [] | Some fs \<Rightarrow> fs) @ [fi])\<rparr>"
  from Cons.IH [OF r, of ?fl1] obtain fl' where
    l: "addFiles_loop rest ?fl1 = (None, fl')"
    and b: "bySuffix fl' s =
       (if bySuffix ?fl1 s = None \<and> filter (\<lambda>f. suffix f = s) rest = [] then None
        else Some ((case bySuffix ?fl1 s of None \<Rightarrow> [] | Some fs \<Rightarrow> fs) @ filter (\<lambda>f. suffix f = s) rest))"
    by blast
  have "addFiles_loop (fi # rest) fl = (None, fl')"
    using l by (simp add: addFile_ordinary [OF o])
  moreover have "bySuffix fl' s =
       (if bySuffix fl s = None \<and> filter (\<lambda>f. suffix f = s) (fi # rest) = [] then None
        else Some ((case bySuffix fl s of None \<Rightarrow> [] | Some fs \<Rightarrow> fs)
                     @ filter (\<lambda>f. suffix f = s) (fi # rest)))"
    unfolding b by (auto split: option.splits)
  ultimately show ?case by blast
qed

lemma addFiles_bySuffix:
  "ordinary_files files \<Longrightarrow>
   \<exists>fl'. addFiles files fl = (None, fl') \<and>
     (case bySuffix fl' s of None \<Rightarrow> [] | Some fs \<Rightarrow> fs) =
       (case bySuffix fl s of None \<Rightarrow> [] | Some fs \<Rightarrow> fs) @ filter (\<lambda>f. suffix f = s) files"
  using addFiles_loop_bySuffix [of files "fl\<lparr>slices := slices fl @ [files]\<rparr>" s]
  by (auto simp: addFiles_def split: option.splits if_splits)

lemma addAll_loop_bySuffix:
  "\<forall>files \<in> set batches. ordinary_files files \<Longrightarrow>
   \<exists>fl'. addAll_loop batches fl = (None, fl') \<and>
     (case bySuffix fl' s of None \<Rightarrow> [] | Some fs \<Rightarrow> fs) =
       (case bySuffix fl s of None \<Rightarrow> [] | Some fs \<Rightarrow> fs) @ filter (\<lambda>f. suffix f = s) (concat batches)"
proof (induction batches arbitrary: fl)
  case Nil
  show ?case by simp
next
  case (Cons files rest)
  from addFiles_bySuffix [of files fl s] Cons.prems obtain fl1 where
    a: "addFiles files fl = (None, fl1)"
    and b: "(case bySuffix fl1 s of None \<Rightarrow> [] | Some fs \<Rightarrow> fs) =
       (case bySuffix fl s of None \<Rightarrow> [] | Some fs \<Rightarrow> fs) @ filter (\<lambda>f. suffix f = s) files"
    by auto
  from Cons.IH [of fl1] Cons.prems obtain fl' where
    c: "addAll_loop rest fl1 = (None, fl')"
    and d: "(case bySuffix fl' s of None \<Rightarrow> [] | Some fs \<Rightarrow> fs) =
       (case bySuffix fl1 s of None \<Rightarrow> [] | Some fs \<Rightarrow> fs) @ filter (\<lambda>f. suffix f = s) (concat rest)"
    by auto
  have "addAll_loop (files # rest) fl = (None, fl')" using a c by simp
  moreover have "(case bySuffix fl' s of None \<Rightarrow> [] | Some fs \<Rightarrow> fs) =
       (case bySuffix fl s of None \<Rightarrow> [] | Some fs \<Rightarrow> fs) @ filter (\<lambda>f. suffix f = s) (concat (files # rest))"
    unfolding d b by simp
  ultimately show ?case by blast
qed

lemma getBySuffix_ordinary:
  "s \<notin> set inherited_names \<Longrightarrow>
   getBySuffix (Str s) fl = Files (case bySuffix fl s of None \<Rightarrow> [] | Some fs \<Rightarrow> fs)"
  by (simp add: getBySuffix_def read_property_ordinary split: option.splits)

text \<open>
  On suffixes that are not inherited names: \<open>getBySuffix([s])\<close> returns what
  \<open>getBySuffix(s)\<close> returns on every FileList; a sequence of \<open>addFiles\<close> calls on a new
  FileList succeeds, and then \<open>getBySuffix(s)\<close> is the files with suffix \<open>s\<close> in the
  order they were added, the empty list when no added file has that suffix.
\<close>

lemma getBySuffix_ordinary_suffix:
  assumes "s \<notin> set inherited_names" "\<forall>files \<in> set batches. ordinary_files files"
  shows "getBySuffix (Arr [s]) fl0 = getBySuffix (Str s) fl0"
    and "\<exists>fl. addAll batches = (None, fl)
           \<and> getBySuffix (Str s) fl = Files (filter (\<lambda>f. suffix f = s) (concat batches))
           \<and> (filter (\<lambda>f. suffix f = s) (concat batches) = [] \<longrightarrow> getBySuffix (Str s) fl = Files [])"
proof -
  show "getBySuffix (Arr [s]) fl0 = getBySuffix (Str s) fl0"
    by (simp add: getBySuffix_def)
  from addAll_loop_bySuffix [OF assms(2), of FileList_new s] obtain fl where
    a: "addAll_loop batches FileList_new = (None, fl)"
    and b: "(case bySuffix fl s of None \<Rightarrow> [] | Some fs \<Rightarrow> fs) = filter (\<lambda>f. suffix f = s) (concat batches)"
    by (auto simp: FileList_new_def)
  show "\<exists>fl. addAll batches = (None, fl)
           \<and> getBySuffix (Str s) fl = Files (filter (\<lambda>f. suffix f = s) (concat batches))
           \<and> (filter (\<lambda>f. suffix f = s) (concat batches) = [] \<longrightarrow> getBySuffix (Str s) fl = Files [])"
    using a b by (auto simp: addAll_def getBySuffix_ordinary [OF assms(1)])
qed

text \<open>
  C10. \<open>getBySuffix([s])\<close> returns what \<open>getBySuffix(s)\<close> returns, for every \<open>s\<close>.
  But under the suffix \<open>constructor\<close>, which no file of the list has, \<open>getBySuffix\<close>
  returns the inherited value and not the empty list, with the string and with the
  one-element array; and \<open>addFiles\<close> of a file with that suffix throws after it has
  pushed the slice and the file, so the file is not listed under its suffix.
\<close>

theorem getBySuffix_inherited_suffix:
  "getBySuffix (Arr [s]) fl = getBySuffix (Str s) fl
   \<and> getBySuffix (Str ''constructor'') FileList_new = InheritedValue ''constructor''
   \<and> getBySuffix (Arr [''constructor'']) FileList_new = InheritedValue ''constructor''
   \<and> getBySuffix (Str ''constructor'') FileList_new \<noteq> Files []
   \<and> fst (addFiles [\<lparr>name = ''a.constructor'', fullname = ''/src/a.constructor'',
                     suffix = ''constructor'', mtime = 0, isDirectory = False\<rparr>] FileList_new)
       = Some (not_a_function ''push'')
   \<and> getBySuffix (Str ''constructor'')
        (snd (addFiles [\<lparr>name = ''a.constructor'', fullname = ''/src/a.constructor'',
                         suffix = ''constructor'', mtime = 0, isDirectory = False\<rparr>] FileList_new))
       = InheritedValue ''constructor''"
  by (simp add: getBySuffix_def read_property_def inherited_names_def FileList_new_def
        addFiles_def addFile_def Let_def)

section \<open>The node: frame conditions and the invariant of build invocations\<close>

subsection \<open>Reading and writing target entries\<close>

lemma bound_mem:
  "tc \<in> set (concat (map (\<lambda>(nm, t). case tech t of None \<Rightarrow> [] | Some tc \<Rightarrow> [tc]) al))
     \<longleftrightarrow> (\<exists>nm t. (nm, t) \<in> set al \<and> tech t = Some tc)"
proof (induction al)
  case Nil show ?case by simp
next
  case (Cons p al)
  obtain nm t where p: "p = (nm, t)" by (cases p)
  show ?case
  proof (cases "tech t")
    case None
    then show ?thesis using Cons p by auto
  next
    case (Some tc')
    then show ?thesis using Cons p by auto
  qed
qed

lemma set_bound_techs:
  "set (bound_techs n) = {tc. \<exists>nm t. (nm, t) \<in> set (targetNames n) \<and> tech t = Some tc}"
  unfolding bound_techs_def using bound_mem [of _ "targetNames n"] by blast

lemma set_update_subset: "set (AList.update k v al) \<subseteq> insert (k, v) (set al)"
  by (induction al) auto

lemma getTarget_fst [simp]: "fst (getTarget nm n) = the_target n nm"
  by (simp add: getTarget_def the_target_def target_at_def split: option.splits)

lemma getTarget_target_at [simp]:
  "target_at (snd (getTarget nm n)) = (target_at n)(nm \<mapsto> the_target n nm)"
  by (auto simp: getTarget_def the_target_def target_at_def fun_eq_iff map_add_def split: option.splits)

lemma getTarget_fields [simp]:
  "path (snd (getTarget nm n)) = path n"
  "targetName (snd (getTarget nm n)) = targetName n"
  "techs (snd (getTarget nm n)) = techs n"
  "targetNamesToBuild (snd (getTarget nm n)) = targetNamesToBuild n"
  "targetNamesToClean (snd (getTarget nm n)) = targetNamesToClean n"
  "registered (snd (getTarget nm n)) = registered n"
  "logger (snd (getTarget nm n)) = logger n"
  "profiler (snd (getTarget nm n)) = profiler n"
  "tech_started (snd (getTarget nm n)) = tech_started n"
  "invoked (snd (getTarget nm n)) = invoked n"
  by (simp_all add: getTarget_def split: option.splits)

lemma getTarget_bound [simp]: "set (bound_techs (snd (getTarget nm n))) = set (bound_techs n)"
  by (auto simp: set_bound_techs getTarget_def new_target_def split: option.splits)

lemma setTarget_target_at [simp]: "target_at (setTarget nm t n) = (target_at n)(nm \<mapsto> t)"
  by (simp add: setTarget_def target_at_def fun_eq_iff update_conv')

lemma setTarget_fields [simp]:
  "path (setTarget nm t n) = path n"
  "targetName (setTarget nm t n) = targetName n"
  "techs (setTarget nm t n) = techs n"
  "targetNamesToBuild (setTarget nm t n) = targetNamesToBuild n"
  "targetNamesToClean (setTarget nm t n) = targetNamesToClean n"
  "registered (setTarget nm t n) = registered n"
  "logger (setTarget nm t n) = logger n"
  "profiler (setTarget nm t n) = profiler n"
  "tech_started (setTarget nm t n) = tech_started n"
  "invoked (setTarget nm t n) = invoked n"
  by (simp_all add: setTarget_def)

lemma setTarget_bound: "set (bound_techs (setTarget nm t n)) \<subseteq> set (bound_techs n) \<union> set_option (tech t)"
  using set_update_subset [of nm t "targetNames n"]
  by (auto simp: set_bound_techs setTarget_def)

lemma setTarget_bound_le:
  "set_option (tech t) \<subseteq> B \<Longrightarrow> set (bound_techs m) \<subseteq> B \<Longrightarrow> set (bound_techs (setTarget nm t m)) \<subseteq> B"
  using setTarget_bound [of nm t m] by blast

lemma target_at_bound: "target_at n nm = Some t \<Longrightarrow> tech t = Some tc \<Longrightarrow> tc \<in> set (bound_techs n)"
  by (auto simp: set_bound_techs target_at_def dest: map_of_SomeD)

lemma logCall_fields [simp]:
  "target_at (logCall ev n) = target_at n"
  "path (logCall ev n) = path n"
  "targetName (logCall ev n) = targetName n"
  "techs (logCall ev n) = techs n"
  "targetNames (logCall ev n) = targetNames n"
  "targetNamesToBuild (logCall ev n) = targetNamesToBuild n"
  "registered (logCall ev n) = registered n"
  "logger (logCall ev n) = logger n @ [ev]"
  "profiler (logCall ev n) = profiler n"
  "tech_started (logCall ev n) = tech_started n"
  "invoked (logCall ev n) = invoked n"
  "bound_techs (logCall ev n) = bound_techs n"
  by (simp_all add: logCall_def target_at_def fun_eq_iff bound_techs_def)

lemma profileCall_fields [simp]:
  "target_at (profileCall ev n) = target_at n"
  "path (profileCall ev n) = path n"
  "targetName (profileCall ev n) = targetName n"
  "techs (profileCall ev n) = techs n"
  "targetNames (profileCall ev n) = targetNames n"
  "targetNamesToBuild (profileCall ev n) = targetNamesToBuild n"
  "registered (profileCall ev n) = registered n"
  "logger (profileCall ev n) = logger n"
  "tech_started (profileCall ev n) = tech_started n"
  "invoked (profileCall ev n) = invoked n"
  "bound_techs (profileCall ev n) = bound_techs n"
  by (simp_all add: profileCall_def target_at_def fun_eq_iff bound_techs_def split: option.splits)

lemma the_target_Some [simp]: "target_at n nm = Some t \<Longrightarrow> the_target n nm = t"
  by (simp add: the_target_def)

lemma the_target_None [simp]: "target_at n nm = None \<Longrightarrow> the_target n nm = new_target"
  by (simp add: the_target_def)

lemma the_target_tech_bound: "tech (the_target n nm) = Some tc \<Longrightarrow> tc \<in> set (bound_techs n)"
  by (cases "target_at n nm") (auto simp: new_target_def dest: target_at_bound)

subsection \<open>The three notifications\<close>

lemma resolveTarget_target_at:
  "target_at (resolveTarget tgt v n) =
     (target_at n)(tgt \<mapsto> (the_target n tgt)\<lparr>deferred := defer_resolve v (deferred (the_target n tgt))\<rparr>)"
  by (simp add: resolveTarget_def Let_def case_prod_unfold)


lemma resolveTarget_fields [simp]:
  "path (resolveTarget tgt v n) = path n"
  "targetName (resolveTarget tgt v n) = targetName n"
  "techs (resolveTarget tgt v n) = techs n"
  "targetNamesToBuild (resolveTarget tgt v n) = targetNamesToBuild n"
  "registered (resolveTarget tgt v n) = registered n"
  "tech_started (resolveTarget tgt v n) = tech_started n"
  "invoked (resolveTarget tgt v n) = invoked n"
  by (simp_all add: resolveTarget_def Let_def case_prod_unfold)

lemma resolveTarget_bound: "set (bound_techs (resolveTarget tgt v n)) \<subseteq> set (bound_techs n)"
  unfolding resolveTarget_def Let_def case_prod_unfold
  by (rule setTarget_bound_le) (auto dest: the_target_tech_bound)

lemma rejectTarget_target_at:
  "target_at (rejectTarget tgt err n) =
     (target_at n)(tgt \<mapsto> (the_target n tgt)\<lparr>deferred := defer_reject err (deferred (the_target n tgt))\<rparr>)"
  by (simp add: rejectTarget_def Let_def case_prod_unfold)


lemma rejectTarget_fields [simp]:
  "path (rejectTarget tgt err n) = path n"
  "targetName (rejectTarget tgt err n) = targetName n"
  "techs (rejectTarget tgt err n) = techs n"
  "targetNamesToBuild (rejectTarget tgt err n) = targetNamesToBuild n"
  "registered (rejectTarget tgt err n) = registered n"
  "tech_started (rejectTarget tgt err n) = tech_started n"
  "invoked (rejectTarget tgt err n) = invoked n"
  by (simp_all add: rejectTarget_def Let_def case_prod_unfold)

lemma rejectTarget_bound: "set (bound_techs (rejectTarget tgt err n)) \<subseteq> set (bound_techs n)"
  unfolding rejectTarget_def Let_def case_prod_unfold
  by (rule setTarget_bound_le) (auto dest: the_target_tech_bound)

lemma isValidTarget_target_at:
  "target_at (isValidTarget tgt n) = (target_at n)(tgt \<mapsto> (the_target n tgt)\<lparr>isValid := True\<rparr>)"
  by (simp add: isValidTarget_def Let_def case_prod_unfold)


lemma isValidTarget_fields [simp]:
  "path (isValidTarget tgt n) = path n"
  "targetName (isValidTarget tgt n) = targetName n"
  "techs (isValidTarget tgt n) = techs n"
  "targetNamesToBuild (isValidTarget tgt n) = targetNamesToBuild n"
  "registered (isValidTarget tgt n) = registered n"
  "tech_started (isValidTarget tgt n) = tech_started n"
  "invoked (isValidTarget tgt n) = invoked n"
  by (simp_all add: isValidTarget_def Let_def case_prod_unfold)

lemma isValidTarget_bound: "set (bound_techs (isValidTarget tgt n)) \<subseteq> set (bound_techs n)"
  unfolding isValidTarget_def Let_def case_prod_unfold
  by (rule setTarget_bound_le) (auto dest: the_target_tech_bound)

subsection \<open>What every operation of the node preserves\<close>

lemma entry_ext_refl [simp]: "entry_ext r t t"
  by (simp add: entry_ext_def)

lemma entry_ext_trans: "entry_ext r t t' \<Longrightarrow> entry_ext r' t' t'' \<Longrightarrow> (r \<longrightarrow> r') \<Longrightarrow> entry_ext r t t''"
  by (auto simp: entry_ext_def)

lemma ext_refl [simp]: "ext n n"
  by (simp add: ext_def)

lemma ext_trans:
  assumes a: "ext n n'" and b: "ext n' n''"
  shows "ext n n''"
proof -
  have e1: "\<exists>t''. target_at n'' nm = Some t'' \<and> entry_ext (registered n) t t''"
    if "target_at n nm = Some t" for nm t
  proof -
    from a that obtain t' where t': "target_at n' nm = Some t'" "entry_ext (registered n) t t'"
      unfolding ext_def by blast
    from b t' obtain t'' where t'': "target_at n'' nm = Some t''" "entry_ext (registered n') t' t''"
      unfolding ext_def by blast
    have "registered n \<longrightarrow> registered n'" using a unfolding ext_def by blast
    with t' t'' show ?thesis using entry_ext_trans by blast
  qed
  have e2: "tech t'' = None"
    if r: "registered n" and "target_at n nm = None" "target_at n'' nm = Some t''" for nm t''
  proof (cases "target_at n' nm")
    case None
    moreover have "registered n'" using a r unfolding ext_def by blast
    ultimately show ?thesis using b that unfolding ext_def by blast
  next
    case (Some t')
    then have "tech t' = None" using a that unfolding ext_def by blast
    moreover from b Some obtain u where "target_at n'' nm = Some u" "entry_ext (registered n') t' u"
      unfolding ext_def by blast
    moreover have "registered n'" using a r unfolding ext_def by blast
    ultimately show ?thesis using that by (auto simp: entry_ext_def)
  qed
  have e3: "\<exists>xs. invoked n'' = invoked n @ xs"
    using a b unfolding ext_def by (metis append.assoc)
  have e4: "set (bound_techs n'') \<subseteq> set (bound_techs n) \<union> set (techs n)"
    using a b unfolding ext_def by auto
  have e5: "path n'' = path n \<and> targetName n'' = targetName n \<and> techs n'' = techs n
      \<and> targetNamesToBuild n'' = targetNamesToBuild n
      \<and> (registered n \<longrightarrow> registered n'')
      \<and> set (tech_started n) \<subseteq> set (tech_started n'')"
    using a b unfolding ext_def by auto
  show ?thesis
    unfolding ext_def using e1 e2 e3 e4 e5 by blast
qed

lemma ext_resolveTarget: "ext n (resolveTarget tgt v n)"
  unfolding ext_def
  using resolveTarget_bound [of tgt v n]
  by (auto simp: resolveTarget_target_at entry_ext_def defer_resolve_def new_target_def
           split: promise.splits)

lemma ext_rejectTarget: "ext n (rejectTarget tgt err n)"
  unfolding ext_def
  using rejectTarget_bound [of tgt err n]
  by (auto simp: rejectTarget_target_at entry_ext_def defer_reject_def new_target_def
           split: promise.splits)

lemma ext_isValidTarget: "ext n (isValidTarget tgt n)"
  unfolding ext_def
  using isValidTarget_bound [of tgt n]
  by (auto simp: isValidTarget_target_at entry_ext_def new_target_def)

lemma started_the_target:
  assumes "\<forall>nm t. target_at n nm = Some t \<longrightarrow> started t \<longrightarrow>
             (\<exists>tc. tech t = Some tc \<and> tech_addr tc \<in> S)"
    and "started (the_target n tgt)"
  shows "\<exists>tc. tech (the_target n tgt) = Some tc \<and> tech_addr tc \<in> S"
  using assms by (cases "target_at n tgt") (auto simp: new_target_def)

lemma consistent_resolveTarget: "consistent n \<Longrightarrow> consistent (resolveTarget tgt v n)"
  unfolding consistent_def
  by (auto simp: resolveTarget_target_at dest: started_the_target)

lemma consistent_rejectTarget: "consistent n \<Longrightarrow> consistent (rejectTarget tgt err n)"
  unfolding consistent_def
  by (auto simp: rejectTarget_target_at dest: started_the_target)

lemma consistent_isValidTarget: "consistent n \<Longrightarrow> consistent (isValidTarget tgt n)"
  unfolding consistent_def
  by (auto simp: isValidTarget_target_at dest: started_the_target)

subsection \<open>Registration\<close>

lemma getTarget_snd_present: "target_at n nm = Some t \<Longrightarrow> snd (getTarget nm n) = n"
  by (simp add: getTarget_def target_at_def)

lemma ext_getTarget: "ext n (snd (getTarget nm n))"
  unfolding ext_def by (auto simp: new_target_def)

lemma consistent_getTarget: "consistent n \<Longrightarrow> consistent (snd (getTarget nm n))"
  unfolding consistent_def by (auto dest: started_the_target)

lemma registerTarget_taken:
  "tech (the_target n tgt) = Some old \<Longrightarrow>
   registerTarget tgt tc n =
     (Some (Error (concurrent_techs_message tgt (getName old) (getName tc))), snd (getTarget tgt n))"
  by (simp add: registerTarget_def case_prod_unfold)

lemma registerTarget_free:
  "tech (the_target n tgt) = None \<Longrightarrow>
   registerTarget tgt tc n =
     (None, setTarget tgt ((the_target n tgt)\<lparr>tech := Some tc\<rparr>) (snd (getTarget tgt n)))"
  by (simp add: registerTarget_def case_prod_unfold)

lemma registerTarget_fields [simp]:
  "path (snd (registerTarget tgt tc n)) = path n"
  "targetName (snd (registerTarget tgt tc n)) = targetName n"
  "techs (snd (registerTarget tgt tc n)) = techs n"
  "targetNamesToBuild (snd (registerTarget tgt tc n)) = targetNamesToBuild n"
  "registered (snd (registerTarget tgt tc n)) = registered n"
  "logger (snd (registerTarget tgt tc n)) = logger n"
  "tech_started (snd (registerTarget tgt tc n)) = tech_started n"
  "invoked (snd (registerTarget tgt tc n)) = invoked n"
  by (cases "tech (the_target n tgt)"; simp add: registerTarget_taken registerTarget_free)+

lemma ext_registerTarget:
  assumes "\<not> registered n" "tc \<in> set (techs n)"
  shows "ext n (snd (registerTarget tgt tc n))"
proof (cases "tech (the_target n tgt)")
  case None
  have "set (bound_techs (setTarget tgt ((the_target n tgt)\<lparr>tech := Some tc\<rparr>) (snd (getTarget tgt n))))
          \<subseteq> set (bound_techs n) \<union> set (techs n)"
    by (rule setTarget_bound_le) (use assms in auto)
  then show ?thesis
    using None assms unfolding ext_def
    by (auto simp: registerTarget_free entry_ext_def)
next
  case (Some old)
  then show ?thesis by (simp add: registerTarget_taken ext_getTarget)
qed

lemma consistent_registerTarget:
  assumes "consistent n"
  shows "consistent (snd (registerTarget tgt tc n))"
proof (cases "tech (the_target n tgt)")
  case None
  then show ?thesis
    using assms unfolding consistent_def
    by (auto simp: registerTarget_free dest: started_the_target)
next
  case (Some old)
  then show ?thesis using assms by (simp add: registerTarget_taken consistent_getTarget)
qed

lemma registerTargets_of_frame:
  "registered (snd (registerTargets_of tc tgts n)) = registered n
   \<and> techs (snd (registerTargets_of tc tgts n)) = techs n
   \<and> tech_started (snd (registerTargets_of tc tgts n)) = tech_started n
   \<and> invoked (snd (registerTargets_of tc tgts n)) = invoked n
   \<and> logger (snd (registerTargets_of tc tgts n)) = logger n"
proof (induction tgts arbitrary: n)
  case Nil
  show ?case by simp
next
  case (Cons tgt rest)
  obtain e n1 where r: "registerTarget tgt tc n = (e, n1)" by (cases "registerTarget tgt tc n")
  have f: "registered n1 = registered n" "techs n1 = techs n" "tech_started n1 = tech_started n"
    "invoked n1 = invoked n" "logger n1 = logger n"
    using registerTarget_fields [of tgt tc n] r by simp_all
  show ?case using r f Cons.IH [of n1] by (cases e) simp_all
qed

lemma registerTargets_of_fields [simp]:
  "registered (snd (registerTargets_of tc tgts n)) = registered n"
  "techs (snd (registerTargets_of tc tgts n)) = techs n"
  "tech_started (snd (registerTargets_of tc tgts n)) = tech_started n"
  "invoked (snd (registerTargets_of tc tgts n)) = invoked n"
  "logger (snd (registerTargets_of tc tgts n)) = logger n"
  using registerTargets_of_frame [of tc tgts n] by simp_all

lemma ext_registerTargets_of:
  "\<not> registered n \<Longrightarrow> tc \<in> set (techs n) \<Longrightarrow> ext n (snd (registerTargets_of tc tgts n))"
proof (induction tgts arbitrary: n)
  case Nil
  show ?case by simp
next
  case (Cons tgt rest)
  obtain e n1 where r: "registerTarget tgt tc n = (e, n1)" by (cases "registerTarget tgt tc n")
  have e1: "ext n n1" using ext_registerTarget [OF Cons.prems, of tgt] r by simp
  have f: "\<not> registered n1" "tc \<in> set (techs n1)"
    using registerTarget_fields [of tgt tc n] r Cons.prems by simp_all
  show ?case
  proof (cases e)
    case None
    then show ?thesis using r e1 Cons.IH [OF f] by (auto intro: ext_trans)
  next
    case (Some err)
    then show ?thesis using r e1 by simp
  qed
qed

lemma consistent_registerTargets_of:
  "consistent n \<Longrightarrow> consistent (snd (registerTargets_of tc tgts n))"
proof (induction tgts arbitrary: n)
  case Nil
  then show ?case by simp
next
  case (Cons tgt rest)
  obtain e n1 where r: "registerTarget tgt tc n = (e, n1)" by (cases "registerTarget tgt tc n")
  have c1: "consistent n1" using consistent_registerTarget [OF Cons.prems, of tgt tc] r by simp
  show ?case using r c1 Cons.IH [OF c1] by (cases e) simp_all
qed

lemma registerTargets_loop_fields:
  "registered (snd (registerTargets_loop ts n)) = registered n
   \<and> techs (snd (registerTargets_loop ts n)) = techs n
   \<and> tech_started (snd (registerTargets_loop ts n)) = tech_started n
   \<and> invoked (snd (registerTargets_loop ts n)) = invoked n
   \<and> logger (snd (registerTargets_loop ts n)) = logger n"
proof (induction ts arbitrary: n)
  case Nil
  show ?case by simp
next
  case (Cons tc rest)
  obtain e n1 where r: "registerTargets_of tc (getTargets tc) n = (e, n1)"
    by (cases "registerTargets_of tc (getTargets tc) n")
  have f: "registered n1 = registered n" "techs n1 = techs n" "tech_started n1 = tech_started n"
    "invoked n1 = invoked n" "logger n1 = logger n"
    using registerTargets_of_fields [of tc "getTargets tc" n] r by simp_all
  show ?case using r f Cons.IH [of n1] by (cases e) simp_all
qed

lemma ext_registerTargets_loop:
  "\<not> registered n \<Longrightarrow> set ts \<subseteq> set (techs n) \<Longrightarrow> ext n (snd (registerTargets_loop ts n))"
proof (induction ts arbitrary: n)
  case Nil
  show ?case by simp
next
  case (Cons tc rest)
  obtain e n1 where r: "registerTargets_of tc (getTargets tc) n = (e, n1)"
    by (cases "registerTargets_of tc (getTargets tc) n")
  have e1: "ext n n1" using ext_registerTargets_of [of n tc "getTargets tc"] Cons.prems r by simp
  have f: "\<not> registered n1" "set rest \<subseteq> set (techs n1)"
    using registerTargets_of_fields [of tc "getTargets tc" n] r Cons.prems by simp_all
  show ?case
  proof (cases e)
    case None
    then show ?thesis using r e1 Cons.IH [OF f] by (auto intro: ext_trans)
  next
    case (Some err)
    then show ?thesis using r e1 by simp
  qed
qed

lemma consistent_registerTargets_loop:
  "consistent n \<Longrightarrow> consistent (snd (registerTargets_loop ts n))"
proof (induction ts arbitrary: n)
  case Nil
  then show ?case by simp
next
  case (Cons tc rest)
  obtain e n1 where r: "registerTargets_of tc (getTargets tc) n = (e, n1)"
    by (cases "registerTargets_of tc (getTargets tc) n")
  have c1: "consistent n1" using consistent_registerTargets_of [OF Cons.prems, of tc "getTargets tc"] r by simp
  show ?case using r c1 Cons.IH [OF c1] by (cases e) simp_all
qed

lemma ext_set_registered: "ext n n' \<Longrightarrow> \<not> registered n \<Longrightarrow> ext n (n'\<lparr>registered := True\<rparr>)"
  unfolding ext_def by (simp add: target_at_def bound_techs_def)

lemma consistent_set_registered: "consistent n \<Longrightarrow> consistent (n\<lparr>registered := True\<rparr>)"
  unfolding consistent_def by (simp add: target_at_def)

lemma registerTargets_registered: "registered n \<Longrightarrow> registerTargets n = (None, n)"
  by (simp add: registerTargets_def)

lemma ext_registerTargets: "ext n (snd (registerTargets n))"
proof (cases "registered n")
  case True
  then show ?thesis by (simp add: registerTargets_def)
next
  case False
  obtain e n1 where r: "registerTargets_loop (techs n) n = (e, n1)"
    by (cases "registerTargets_loop (techs n) n")
  have "ext n n1" using ext_registerTargets_loop [OF False, of "techs n"] r by simp
  then show ?thesis using False r by (cases e) (simp_all add: registerTargets_def ext_set_registered)
qed

lemma consistent_registerTargets: "consistent n \<Longrightarrow> consistent (snd (registerTargets n))"
proof -
  assume c: "consistent n"
  obtain e n1 where r: "registerTargets_loop (techs n) n = (e, n1)"
    by (cases "registerTargets_loop (techs n) n")
  have "consistent n1" using consistent_registerTargets_loop [OF c, of "techs n"] r by simp
  then show ?thesis using c r by (cases e) (simp_all add: registerTargets_def consistent_set_registered)
qed

lemma registerTargets_ok_registered: "registerTargets n = (None, n1) \<Longrightarrow> registered n1"
  by (auto simp: registerTargets_def split: if_splits prod.splits option.splits)

lemma registerTargets_no_build:
  "invoked (snd (registerTargets n)) = invoked n \<and> tech_started (snd (registerTargets n)) = tech_started n
   \<and> logger (snd (registerTargets n)) = logger n"
proof -
  obtain e n1 where r: "registerTargets_loop (techs n) n = (e, n1)"
    by (cases "registerTargets_loop (techs n) n")
  then show ?thesis
    using registerTargets_loop_fields [of "techs n" n]
    by (cases e) (simp_all add: registerTargets_def)
qed

subsection \<open>The callback of requireSources, case by case\<close>

declare requireSource.simps [simp del]

lemma requireSource_unowned:
  "tech (the_target n (unmaskTargetName n s)) = None \<Longrightarrow>
   requireSource J fuel s n =
     Some (RejectedPromise (TargetNotFoundError (not_found_message J (path n) (unmaskTargetName n s))),
           snd (getTarget (unmaskTargetName n s) n))"
  by (simp add: requireSource.simps Let_def case_prod_unfold)

lemma requireSource_started:
  "tech (the_target n (unmaskTargetName n s)) = Some tc \<Longrightarrow>
   started (the_target n (unmaskTargetName n s)) \<Longrightarrow>
   requireSource J fuel s n =
     Some (TargetPromise (unmaskTargetName n s), snd (getTarget (unmaskTargetName n s) n))"
  by (simp add: requireSource.simps Let_def case_prod_unfold)

lemma requireSource_tech_started:
  "tech (the_target n (unmaskTargetName n s)) = Some tc \<Longrightarrow>
   \<not> started (the_target n (unmaskTargetName n s)) \<Longrightarrow>
   tech_addr tc \<in> set (tech_started n) \<Longrightarrow>
   requireSource J fuel s n =
     Some (TargetPromise (unmaskTargetName n s), mark_started (unmaskTargetName n s) tc n)"
  by (simp add: requireSource.simps Let_def case_prod_unfold mark_started_def)

lemma requireSource_invoke:
  "tech (the_target n (unmaskTargetName n s)) = Some tc \<Longrightarrow>
   \<not> started (the_target n (unmaskTargetName n s)) \<Longrightarrow>
   tech_addr tc \<notin> set (tech_started n) \<Longrightarrow>
   requireSource J fuel s n =
     (case fuel of
        0 \<Rightarrow> None
      | Suc fuel' \<Rightarrow>
          (case run_calls J fuel' (build_calls tc) (begin_build (unmaskTargetName n s) tc n) of
             None \<Rightarrow> None
           | Some (thrown, n4) \<Rightarrow>
               map_option (Pair (TargetPromise (unmaskTargetName n s)))
                 (end_build J fuel' (unmaskTargetName n s) tc thrown n4)))"
  by (simp add: requireSource.simps Let_def case_prod_unfold mark_started_def begin_build_def
        end_build_def split: nat.splits option.splits prod.splits sum.splits)

lemma mark_started_target_at:
  "target_at (mark_started u tc n) = (target_at n)(u \<mapsto> (the_target n u)\<lparr>started := True\<rparr>)"
  by (simp add: mark_started_def)

lemma mark_started_fields [simp]:
  "path (mark_started u tc n) = path n"
  "targetName (mark_started u tc n) = targetName n"
  "techs (mark_started u tc n) = techs n"
  "targetNamesToBuild (mark_started u tc n) = targetNamesToBuild n"
  "registered (mark_started u tc n) = registered n"
  "logger (mark_started u tc n) = logger n"
  "tech_started (mark_started u tc n) = tech_started n"
  "invoked (mark_started u tc n) = invoked n"
  by (simp_all add: mark_started_def)

lemma mark_started_bound: "set (bound_techs (mark_started u tc n)) \<subseteq> set (bound_techs n)"
  unfolding mark_started_def
  by (rule setTarget_bound_le) (auto dest: the_target_tech_bound)

lemma ext_mark_started: "ext n (mark_started u tc n)"
  unfolding ext_def
  using mark_started_bound [of u tc n]
  by (auto simp: mark_started_target_at entry_ext_def new_target_def)

lemma consistent_mark_started:
  "consistent n \<Longrightarrow> tech (the_target n u) = Some tc \<Longrightarrow> tech_addr tc \<in> set (tech_started n) \<Longrightarrow>
   consistent (mark_started u tc n)"
  unfolding consistent_def
  by (auto simp: mark_started_target_at)

lemma begin_build_target_at:
  "target_at (begin_build u tc n) = (target_at n)(u \<mapsto> (the_target n u)\<lparr>started := True\<rparr>)"
  by (simp add: begin_build_def target_at_def fun_eq_iff mark_started_target_at [unfolded target_at_def fun_eq_iff, rule_format])

lemma begin_build_fields [simp]:
  "path (begin_build u tc n) = path n"
  "targetName (begin_build u tc n) = targetName n"
  "techs (begin_build u tc n) = techs n"
  "targetNamesToBuild (begin_build u tc n) = targetNamesToBuild n"
  "registered (begin_build u tc n) = registered n"
  "logger (begin_build u tc n) = logger n"
  "tech_started (begin_build u tc n) = tech_addr tc # tech_started n"
  "invoked (begin_build u tc n) = invoked n @ [tech_addr tc]"
  "bound_techs (begin_build u tc n) = bound_techs (mark_started u tc n)"
  by (simp_all add: begin_build_def bound_techs_def)

lemma ext_begin_build: "ext n (begin_build u tc n)"
  unfolding ext_def
  using mark_started_bound [of u tc n]
  by (auto simp: begin_build_target_at entry_ext_def new_target_def)

lemma consistent_begin_build:
  "consistent n \<Longrightarrow> tech (the_target n u) = Some tc \<Longrightarrow> tech_addr tc \<notin> set (tech_started n) \<Longrightarrow>
   consistent (begin_build u tc n)"
  unfolding consistent_def
  by (simp add: begin_build_target_at) blast

lemma on_fail_target_at [simp]: "target_at (on_fail u futs n) = target_at n"
  by (simp add: on_fail_def target_at_def fun_eq_iff)

lemma on_fail_fields [simp]:
  "path (on_fail u futs n) = path n"
  "targetName (on_fail u futs n) = targetName n"
  "techs (on_fail u futs n) = techs n"
  "targetNames (on_fail u futs n) = targetNames n"
  "targetNamesToBuild (on_fail u futs n) = targetNamesToBuild n"
  "registered (on_fail u futs n) = registered n"
  "logger (on_fail u futs n) = logger n"
  "tech_started (on_fail u futs n) = tech_started n"
  "invoked (on_fail u futs n) = invoked n"
  "bound_techs (on_fail u futs n) = bound_techs n"
  "fail_handlers (on_fail u futs n) = fail_handlers n @ [(u, futs)]"
  by (simp_all add: on_fail_def bound_techs_def)

lemma ext_on_fail: "ext n (on_fail u futs n)"
  unfolding ext_def by auto

lemma consistent_on_fail: "consistent n \<Longrightarrow> consistent (on_fail u futs n)"
  unfolding consistent_def by simp

lemma run_calls_single:
  "run_calls J fuel [RequireSources srcs] n =
     (case requireSources J fuel srcs n of
        None \<Rightarrow> None
      | Some (Inl e, n1) \<Rightarrow> Some (Some e, n1)
      | Some (Inr futs, n1) \<Rightarrow> Some (None, n1))"
  by (simp split: option.splits prod.splits sum.splits)

lemma good_step_single:
  "good_step n (run_calls J fuel [RequireSources srcs] n) \<Longrightarrow> good_step n (requireSources J fuel srcs n)"
  unfolding good_step_def run_calls_single
  by (auto split: option.splits prod.splits sum.splits)

lemma end_build_good:
  assumes "\<And>srcs. good_step n (requireSources J fuel srcs n)"
  shows "\<exists>n'. end_build J fuel u tc thrown n = Some n' \<and> ext n n' \<and> (consistent n \<longrightarrow> consistent n')"
proof (cases "thrown = None \<and> build_throws tc = None \<and> build_returns tc \<noteq> None")
  case False
  then show ?thesis
    by (auto simp: end_build_def ext_rejectTarget consistent_rejectTarget split: option.splits)
next
  case True
  then obtain srcs where s: "thrown = None" "build_throws tc = None" "build_returns tc = Some srcs"
    by auto
  from assms [of srcs] obtain r n5 where
    r: "requireSources J fuel srcs n = Some (r, n5)" and e: "ext n n5"
    and c: "consistent n \<longrightarrow> consistent n5"
    unfolding good_step_def by auto
  show ?thesis
  proof (cases r)
    case (Inl err)
    have "end_build J fuel u tc thrown n = Some (rejectTarget u err n5)"
      using s r Inl by (simp add: end_build_def)
    then show ?thesis
      using ext_trans [OF e ext_rejectTarget] c consistent_rejectTarget by blast
  next
    case (Inr futs)
    have "end_build J fuel u tc thrown n = Some (on_fail u futs n5)"
      using s r Inr by (simp add: end_build_def)
    then show ?thesis
      using ext_trans [OF e ext_on_fail] c consistent_on_fail by blast
  qed
qed

subsection \<open>Fuel\<close>

lemma pending_techs_card:
  "pending_techs n = card (tech_addr ` (set (techs n) \<union> set (bound_techs n)) - set (tech_started n))"
proof -
  have "set (filter (\<lambda>a. a \<notin> set (tech_started n)) (map tech_addr (techs n @ bound_techs n)))
        = tech_addr ` (set (techs n) \<union> set (bound_techs n)) - set (tech_started n)"
    by auto
  then show ?thesis
    unfolding pending_techs_def length_remdups_card_conv by simp
qed

lemma ext_pending: "ext n n' \<Longrightarrow> pending_techs n' \<le> pending_techs n"
proof -
  assume e: "ext n n'"
  have "tech_addr ` (set (techs n') \<union> set (bound_techs n')) - set (tech_started n')
        \<subseteq> tech_addr ` (set (techs n) \<union> set (bound_techs n)) - set (tech_started n)"
    using e unfolding ext_def by auto
  then show ?thesis
    unfolding pending_techs_card by (intro card_mono) auto
qed

lemma begin_build_pending:
  assumes "tech (the_target n u) = Some tc" "tech_addr tc \<notin> set (tech_started n)"
  shows "pending_techs (begin_build u tc n) < pending_techs n"
proof -
  let ?A = "tech_addr ` (set (techs n) \<union> set (bound_techs n)) - set (tech_started n)"
  let ?B = "tech_addr ` (set (techs (begin_build u tc n)) \<union> set (bound_techs (begin_build u tc n)))
              - set (tech_started (begin_build u tc n))"
  have a: "tech_addr tc \<in> ?A"
    using assms the_target_tech_bound [OF assms(1)] by auto
  have "?B \<subseteq> ?A - {tech_addr tc}"
    using mark_started_bound [of u tc n] by auto
  moreover have "?A - {tech_addr tc} \<subset> ?A" using a by auto
  ultimately have "?B \<subset> ?A" by blast
  then show ?thesis
    unfolding pending_techs_card by (intro psubset_card_mono) auto
qed

subsection \<open>Enough fuel: every call returns, and keeps the invariant\<close>

lemma good_stepI: "res = Some (r, n') \<Longrightarrow> ext n n' \<Longrightarrow> (consistent n \<Longrightarrow> consistent n') \<Longrightarrow> good_step n res"
  unfolding good_step_def by blast

lemma requireSource_good:
  assumes IH: "\<And>f' cs (m :: 'v node). f' < fuel \<Longrightarrow> pending_techs m \<le> f' \<Longrightarrow> good_step m (run_calls J f' cs m)"
    and fuel: "pending_techs (n :: 'v node) \<le> fuel"
  shows "good_step n (requireSource J fuel s n)"
proof -
  let ?u = "unmaskTargetName n s"
  show ?thesis
  proof (cases "tech (the_target n ?u)")
    case None
    show ?thesis
      by (rule good_stepI [OF requireSource_unowned [OF None]])
         (simp_all add: ext_getTarget consistent_getTarget)
  next
    case (Some tc)
    show ?thesis
    proof (cases "started (the_target n ?u)")
      case True
      show ?thesis
        by (rule good_stepI [OF requireSource_started [OF Some True]])
           (simp_all add: ext_getTarget consistent_getTarget)
    next
      case False
      show ?thesis
      proof (cases "tech_addr tc \<in> set (tech_started n)")
        case True
        show ?thesis
          by (rule good_stepI [OF requireSource_tech_started [OF Some False True]])
             (simp_all add: ext_mark_started consistent_mark_started Some True)
      next
        case nst: False
        have lt: "pending_techs (begin_build ?u tc n) < pending_techs n"
          by (rule begin_build_pending [OF Some nst])
        then obtain f' where f': "fuel = Suc f'" using fuel by (cases fuel) auto
        have "pending_techs (begin_build ?u tc n) \<le> f'" using lt fuel f' by simp
        then have "good_step (begin_build ?u tc n) (run_calls J f' (build_calls tc) (begin_build ?u tc n))"
          using f' by (intro IH) simp_all
        then obtain thrown n4 where r: "run_calls J f' (build_calls tc) (begin_build ?u tc n) = Some (thrown, n4)"
          and e: "ext (begin_build ?u tc n) n4"
          and c: "consistent (begin_build ?u tc n) \<longrightarrow> consistent n4"
          unfolding good_step_def by auto
        have p4: "pending_techs n4 \<le> f'"
          using ext_pending [OF e] \<open>pending_techs (begin_build ?u tc n) \<le> f'\<close> by simp
        have "good_step n4 (requireSources J f' srcs n4)" for srcs
          by (rule good_step_single) (use f' p4 in \<open>intro IH, simp_all\<close>)
        from end_build_good [OF this, of ?u tc thrown] obtain n' where
          eb: "end_build J f' ?u tc thrown n4 = Some n'" and e5: "ext n4 n'"
          and c5: "consistent n4 \<longrightarrow> consistent n'"
          by blast
        have res: "requireSource J fuel s n = Some (TargetPromise ?u, n')"
          using requireSource_invoke [OF Some False nst, of J fuel] f' r eb by simp
        have e2: "ext n n'"
          using ext_trans [OF ext_trans [OF ext_begin_build e] e5] .
        show ?thesis
          by (rule good_stepI [OF res e2])
             (use c c5 consistent_begin_build [OF _ Some nst] in blast)
      qed
    qed
  qed
qed

lemma requireSources_map_good:
  assumes P: "\<And>s (m :: 'v node). pending_techs m \<le> fuel \<Longrightarrow> good_step m (requireSource J fuel s m)"
  shows "pending_techs (n :: 'v node) \<le> fuel \<Longrightarrow> good_step n (requireSources_map J fuel ss n)"
proof (induction ss arbitrary: n)
  case Nil
  show ?case by (rule good_stepI [of _ "[]" n]) simp_all
next
  case (Cons src rest)
  from P [OF Cons.prems, of src] obtain fut n1 where
    r1: "requireSource J fuel src n = Some (fut, n1)" and e1: "ext n n1"
    and c1: "consistent n \<longrightarrow> consistent n1"
    unfolding good_step_def by auto
  have "pending_techs n1 \<le> fuel" using ext_pending [OF e1] Cons.prems by simp
  from Cons.IH [OF this] obtain futs n2 where
    r2: "requireSources_map J fuel rest n1 = Some (futs, n2)" and e2: "ext n1 n2"
    and c2: "consistent n1 \<longrightarrow> consistent n2"
    unfolding good_step_def by auto
  show ?case
    by (rule good_stepI [of _ "fut # futs" n2])
       (use r1 r2 e1 e2 c1 c2 in \<open>auto intro: ext_trans\<close>)
qed

lemma requireSources_good:
  assumes P: "\<And>s (m :: 'v node). pending_techs m \<le> fuel \<Longrightarrow> good_step m (requireSource J fuel s m)"
    and fuel: "pending_techs (n :: 'v node) \<le> fuel"
  shows "good_step n (requireSources J fuel ss n)"
proof -
  obtain e n1 where r: "registerTargets n = (e, n1)" by (cases "registerTargets n")
  have e1: "ext n n1" using ext_registerTargets [of n] r by simp
  have c1: "consistent n \<Longrightarrow> consistent n1" using consistent_registerTargets [of n] r by simp
  show ?thesis
  proof (cases e)
    case (Some err)
    show ?thesis
      by (rule good_stepI [of _ "Inl err" n1]) (use r Some e1 c1 in auto)
  next
    case None
    have "pending_techs n1 \<le> fuel" using ext_pending [OF e1] fuel by simp
    from requireSources_map_good [OF P this, of ss] obtain futs n2 where
      r2: "requireSources_map J fuel ss n1 = Some (futs, n2)" and e2: "ext n1 n2"
      and c2: "consistent n1 \<longrightarrow> consistent n2"
      unfolding good_step_def by auto
    show ?thesis
      by (rule good_stepI [of _ "Inr futs" n2])
         (use r None r2 e1 e2 c1 c2 in \<open>auto intro: ext_trans\<close>)
  qed
qed

lemma run_calls_good_step:
  assumes P: "\<And>s (m :: 'v node). pending_techs m \<le> fuel \<Longrightarrow> good_step m (requireSource J fuel s m)"
  shows "pending_techs (n :: 'v node) \<le> fuel \<Longrightarrow> good_step n (run_calls J fuel cs n)"
proof (induction cs arbitrary: n)
  case Nil
  show ?case by (rule good_stepI [of _ None n]) simp_all
next
  case (Cons c rest)
  have step: "good_step n (run_calls J fuel rest m)"
    if e: "ext n m" and c: "consistent n \<longrightarrow> consistent m" for m
  proof -
    have "pending_techs m \<le> fuel" using ext_pending [OF e] Cons.prems by simp
    from Cons.IH [OF this] obtain r n2 where
      "run_calls J fuel rest m = Some (r, n2)" "ext m n2" "consistent m \<longrightarrow> consistent n2"
      unfolding good_step_def by auto
    then show ?thesis
      using e c by (intro good_stepI [of _ r n2]) (auto intro: ext_trans)
  qed
  show ?case
  proof (cases c)
    case (RequireSources srcs)
    from requireSources_good [OF P Cons.prems, of srcs] obtain r n1 where
      r1: "requireSources J fuel srcs n = Some (r, n1)" and e1: "ext n n1"
      and c1: "consistent n \<longrightarrow> consistent n1"
      unfolding good_step_def by auto
    show ?thesis
    proof (cases r)
      case (Inl err)
      show ?thesis
        by (rule good_stepI [of _ "Some err" n1]) (use RequireSources r1 Inl e1 c1 in auto)
    next
      case (Inr futs)
      then show ?thesis using step [OF e1 c1] RequireSources r1 by simp
    qed
  next
    case (ResolveTarget tgt v)
    then show ?thesis
      using step [OF ext_resolveTarget [of n tgt v]] consistent_resolveTarget [of n tgt v] by simp
  next
    case (RejectTarget tgt err)
    then show ?thesis
      using step [OF ext_rejectTarget [of n tgt err]] consistent_rejectTarget [of n tgt err] by simp
  next
    case (IsValidTarget tgt)
    then show ?thesis
      using step [OF ext_isValidTarget [of n tgt]] consistent_isValidTarget [of n tgt] by simp
  qed
qed

lemma run_calls_good: "pending_techs (n :: 'v node) \<le> fuel \<Longrightarrow> good_step n (run_calls J fuel cs n)"
proof (induction fuel arbitrary: n cs rule: less_induct)
  case (less fuel)
  have P: "good_step m (requireSource J fuel s m)" if "pending_techs m \<le> fuel" for s and m :: "'v node"
    by (rule requireSource_good [OF _ that]) (rule less.IH)
  show ?case by (rule run_calls_good_step [OF P less.prems])
qed

lemma requireSource_good_step: "pending_techs n \<le> fuel \<Longrightarrow> good_step n (requireSource J fuel s n)"
  by (rule requireSource_good) (auto intro: run_calls_good)



lemma map_of_target_at: "map_of (targetNames n) nm = target_at n nm"
  by (simp add: target_at_def)



section \<open>The claims about the node\<close>



subsection \<open>Names without a technology\<close>

lemma unowned_the_target:
  "(\<forall>tobj. map_of (targetNames n) u = Some tobj \<longrightarrow> tech tobj = None) \<longleftrightarrow> tech (the_target n u) = None"
  by (cases "target_at n u") (auto simp: map_of_target_at new_target_def)

lemma ext_unowned:
  assumes "ext n n'" "registered n" "tech (the_target n u) = None"
  shows "tech (the_target n' u) = None"
proof (cases "target_at n u")
  case None
  show ?thesis
  proof (cases "target_at n' u")
    case n': None
    then show ?thesis by (simp add: new_target_def)
  next
    case (Some t')
    then show ?thesis using assms None unfolding ext_def by auto
  qed
next
  case (Some t)
  have "\<forall>nm t. target_at n nm = Some t \<longrightarrow>
             (\<exists>t'. target_at n' nm = Some t' \<and> entry_ext (registered n) t t')"
    using assms(1) unfolding ext_def by blast
  with Some assms(2) obtain t' where "target_at n' u = Some t'" "entry_ext True t t'"
    by auto
  then show ?thesis using assms Some by (simp add: entry_ext_def)
qed

lemma ext_unmask: "ext n n' \<Longrightarrow> unmaskTargetName n' s = unmaskTargetName n s"
proof -
  assume "ext n n'"
  then have "targetName n' = targetName n" by (simp add: ext_def)
  then show ?thesis unfolding unmaskTargetName_def by (rule ssubst) (rule refl)
qed

lemma requireSource_unowned_frame:
  assumes "tech (the_target n (unmaskTargetName n s)) = None"
  shows "\<exists>n'. requireSource J fuel s n =
           Some (RejectedPromise (TargetNotFoundError (not_found_message J (path n) (unmaskTargetName n s))), n')
         \<and> invoked n' = invoked n \<and> tech_started n' = tech_started n \<and> logger n' = logger n"
  using requireSource_unowned [OF assms, of J fuel] by simp


lemma requireSources_map_unowned:
  "registered n \<Longrightarrow> pending_techs n \<le> fuel \<Longrightarrow>
   \<exists>futs n'. requireSources_map J fuel ss n = Some (futs, n') \<and> ext n n' \<and> length futs = length ss
     \<and> (\<forall>i<length ss. tech (the_target n (unmaskTargetName n (ss ! i))) = None \<longrightarrow>
           futs ! i = RejectedPromise (TargetNotFoundError
                        (not_found_message J (path n) (unmaskTargetName n (ss ! i)))))"
proof (induction ss arbitrary: n)
  case Nil
  show ?case by simp
next
  case (Cons src rest)
  from requireSource_good_step [OF Cons.prems(2), of J src] obtain fut n1 where
    r1: "requireSource J fuel src n = Some (fut, n1)" and e1: "ext n n1"
    unfolding good_step_def by auto
  have reg1: "registered n1" using e1 Cons.prems(1) unfolding ext_def by simp
  have p1: "pending_techs n1 \<le> fuel" using ext_pending [OF e1] Cons.prems(2) by simp
  from Cons.IH [OF reg1 p1] obtain futs n2 where
    r2: "requireSources_map J fuel rest n1 = Some (futs, n2)" and e2: "ext n1 n2"
    and len: "length futs = length rest"
    and un: "\<forall>i<length rest. tech (the_target n1 (unmaskTargetName n1 (rest ! i))) = None \<longrightarrow>
           futs ! i = RejectedPromise (TargetNotFoundError
                        (not_found_message J (path n1) (unmaskTargetName n1 (rest ! i))))"
    by blast
  have pth: "path n1 = path n" using e1 unfolding ext_def by simp
  have pos: "(fut # futs) ! i = RejectedPromise (TargetNotFoundError
                        (not_found_message J (path n) (unmaskTargetName n ((src # rest) ! i))))"
    if i: "i < length (src # rest)"
      and u: "tech (the_target n (unmaskTargetName n ((src # rest) ! i))) = None" for i
  proof (cases i)
    case 0
    then show ?thesis using requireSource_unowned [of n src J fuel] u r1 by simp
  next
    case (Suc k)
    have "tech (the_target n1 (unmaskTargetName n (rest ! k))) = None"
      using ext_unowned [OF e1 Cons.prems(1)] u Suc by simp
    then show ?thesis using un i Suc pth ext_unmask [OF e1] by simp
  qed
  show ?case
    using r1 r2 len pos ext_trans [OF e1 e2] by simp
qed

lemma vow_all_rejected: "Rejected e \<in> set ps \<Longrightarrow> \<exists>e'. vow_all ps = Rejected e'"
proof (induction ps)
  case Nil
  then show ?case by simp
next
  case (Cons p ps)
  show ?case
  proof (cases "p = Rejected e")
    case True
    then show ?thesis by simp
  next
    case False
    with Cons obtain e' where "vow_all ps = Rejected e'" by auto
    then show ?thesis by (cases p) simp_all
  qed
qed

lemma unmask_cong:
  assumes "targetName m = targetName n"
  shows "unmaskTargetName m s = unmaskTargetName n s"
  unfolding unmaskTargetName_def assms by (rule refl)

subsection \<open>Two technologies for one name\<close>

lemma registerTarget_free_the_target:
  assumes "tech (the_target n tgt) = None"
  shows "the_target (snd (registerTarget tgt tc n)) nm =
           (if nm = tgt then (the_target n tgt)\<lparr>tech := Some tc\<rparr> else the_target n nm)"
  using assms by (simp add: registerTarget_free the_target_def)

lemma registerTarget_error_iff:
  "fst (registerTarget tgt tc n) = None \<longleftrightarrow> tech (the_target n tgt) = None"
  by (cases "tech (the_target n tgt)") (simp_all add: registerTarget_free registerTarget_taken)

lemma registerTarget_error_form:
  "fst (registerTarget tgt tc n) = Some e \<Longrightarrow> \<exists>t a b. e = Error (concurrent_techs_message t a b)"
  by (cases "tech (the_target n tgt)") (auto simp: registerTarget_free registerTarget_taken)

lemma registerTargets_of_error_form:
  "fst (registerTargets_of tc tgts n) = Some e \<Longrightarrow> \<exists>t a b. e = Error (concurrent_techs_message t a b)"
proof (induction tgts arbitrary: n)
  case Nil
  then show ?case by simp
next
  case (Cons tgt rest)
  obtain r n1 where r: "registerTarget tgt tc n = (r, n1)" by (cases "registerTarget tgt tc n")
  show ?case
  proof (cases r)
    case None
    then show ?thesis using Cons r by simp
  next
    case (Some e')
    then show ?thesis using Cons.prems r registerTarget_error_form [of tgt tc n e] by simp
  qed
qed

lemma registerTargets_loop_error_form:
  "fst (registerTargets_loop ts n) = Some e \<Longrightarrow> \<exists>t a b. e = Error (concurrent_techs_message t a b)"
proof (induction ts arbitrary: n)
  case Nil
  then show ?case by simp
next
  case (Cons tc rest)
  obtain r n1 where r: "registerTargets_of tc (getTargets tc) n = (r, n1)"
    by (cases "registerTargets_of tc (getTargets tc) n")
  show ?case
  proof (cases r)
    case None
    then show ?thesis using Cons r by simp
  next
    case (Some e')
    then show ?thesis
      using Cons.prems r registerTargets_of_error_form [of tc "getTargets tc" n e] by simp
  qed
qed

lemma registerTargets_error_form:
  "fst (registerTargets n) = Some e \<Longrightarrow> \<exists>t a b. e = Error (concurrent_techs_message t a b)"
  using registerTargets_loop_error_form [of "techs n" n e]
  by (auto simp: registerTargets_def split: if_splits prod.splits option.splits)

lemma registerTargets_of_ok:
  "registerTargets_of tc tgts n = (None, n') \<Longrightarrow>
     (\<forall>tgt\<in>set tgts. tech (the_target n tgt) = None)
   \<and> (\<forall>tgt\<in>set tgts. tech (the_target n' tgt) \<noteq> None)
   \<and> (\<forall>nm. tech (the_target n nm) \<noteq> None \<longrightarrow> tech (the_target n' nm) \<noteq> None)"
proof (induction tgts arbitrary: n)
  case Nil
  then show ?case by simp
next
  case (Cons tgt rest)
  obtain r n1 where r: "registerTarget tgt tc n = (r, n1)" by (cases "registerTarget tgt tc n")
  have rn: "r = None" using Cons.prems r by (cases r) simp_all
  then have free: "tech (the_target n tgt) = None"
    using registerTarget_error_iff [of tgt tc n] r by simp
  have n1: "the_target n1 nm = (if nm = tgt then (the_target n tgt)\<lparr>tech := Some tc\<rparr> else the_target n nm)" for nm
    using registerTarget_free_the_target [OF free, of tc nm] r by simp
  have rest: "registerTargets_of tc rest n1 = (None, n')" using Cons.prems r rn by simp
  from Cons.IH [OF rest] have
    a: "\<forall>t\<in>set rest. tech (the_target n1 t) = None"
    and b: "\<forall>t\<in>set rest. tech (the_target n' t) \<noteq> None"
    and c: "\<forall>nm. tech (the_target n1 nm) \<noteq> None \<longrightarrow> tech (the_target n' nm) \<noteq> None"
    by blast+
  have 1: "\<forall>t\<in>set (tgt # rest). tech (the_target n t) = None"
    using free a n1 by (auto split: if_splits)
  have 2: "\<forall>t\<in>set (tgt # rest). tech (the_target n' t) \<noteq> None"
    using b c n1 [of tgt] by auto
  have 3: "\<forall>nm. tech (the_target n nm) \<noteq> None \<longrightarrow> tech (the_target n' nm) \<noteq> None"
    using c n1 by auto
  from 1 2 3 show ?case by blast
qed

lemma registerTargets_loop_ok:
  "registerTargets_loop ts n = (None, n') \<Longrightarrow>
     (\<forall>tc\<in>set ts. \<forall>tgt\<in>set (getTargets tc). tech (the_target n tgt) = None)
   \<and> (\<forall>nm. tech (the_target n nm) \<noteq> None \<longrightarrow> tech (the_target n' nm) \<noteq> None)
   \<and> (\<forall>i j. i < j \<and> j < length ts \<longrightarrow> set (getTargets (ts ! i)) \<inter> set (getTargets (ts ! j)) = {})"
proof (induction ts arbitrary: n)
  case Nil
  then show ?case by simp
next
  case (Cons tc rest)
  obtain r n1 where r: "registerTargets_of tc (getTargets tc) n = (r, n1)"
    by (cases "registerTargets_of tc (getTargets tc) n")
  have rn: "r = None" using Cons.prems r by (cases r) simp_all
  from registerTargets_of_ok [of tc "getTargets tc" n n1] r rn have
    o1: "\<forall>tgt\<in>set (getTargets tc). tech (the_target n tgt) = None"
    and o2: "\<forall>tgt\<in>set (getTargets tc). tech (the_target n1 tgt) \<noteq> None"
    and o3: "\<forall>nm. tech (the_target n nm) \<noteq> None \<longrightarrow> tech (the_target n1 nm) \<noteq> None"
    by blast+
  have rest: "registerTargets_loop rest n1 = (None, n')" using Cons.prems r rn by simp
  from Cons.IH [OF rest] have
    a: "\<forall>tc'\<in>set rest. \<forall>tgt\<in>set (getTargets tc'). tech (the_target n1 tgt) = None"
    and b: "\<forall>nm. tech (the_target n1 nm) \<noteq> None \<longrightarrow> tech (the_target n' nm) \<noteq> None"
    and c: "\<forall>i j. i < j \<and> j < length rest \<longrightarrow> set (getTargets (rest ! i)) \<inter> set (getTargets (rest ! j)) = {}"
    by blast+
  have 1: "\<forall>tc'\<in>set (tc # rest). \<forall>tgt\<in>set (getTargets tc'). tech (the_target n tgt) = None"
    using o1 o3 a by auto
  have 2: "\<forall>nm. tech (the_target n nm) \<noteq> None \<longrightarrow> tech (the_target n' nm) \<noteq> None"
    using o3 b by blast
  have 3: "set (getTargets ((tc # rest) ! i)) \<inter> set (getTargets ((tc # rest) ! j)) = {}"
    if ij: "i < j" "j < length (tc # rest)" for i j
  proof (cases i)
    case 0
    then obtain k where k: "j = Suc k" using ij by (cases j) auto
    then have "rest ! k \<in> set rest" using ij by simp
    then have "\<forall>tgt\<in>set (getTargets (rest ! k)). tech (the_target n1 tgt) = None" using a by blast
    then show ?thesis using o2 0 k by auto
  next
    case (Suc i')
    then obtain k where k: "j = Suc k" using ij by (cases j) auto
    then show ?thesis using c ij Suc by simp
  qed
  from 1 2 3 show ?case by blast
qed

text \<open>
  C2. \<open>_registerTarget\<close> for a name whose entry already has a technology throws the error
  whose message names the target, the technology bound and the one being registered, and
  changes nothing; for a name without a technology it succeeds and binds the technology.
  When \<open>_registerTargets\<close> throws, \<open>requireSources\<close> and \<open>build\<close> throw that error before
  the first build routine is called: no technology has been invoked or marked started. It
  does throw when two technologies of the node declare the same target name.
\<close>

theorem registerTarget_second_binding:
  "(\<forall>tobj old. map_of (targetNames n) tgt = Some tobj \<and> tech tobj = Some old \<longrightarrow>
      registerTarget tgt tc n =
        (Some (Error (concurrent_techs_message tgt (getName old) (getName tc))), n))
   \<and> ((\<forall>tobj. map_of (targetNames n) tgt = Some tobj \<longrightarrow> tech tobj = None) \<longrightarrow>
        (\<exists>n'. registerTarget tgt tc n = (None, n')
           \<and> (\<exists>tobj'. map_of (targetNames n') tgt = Some tobj' \<and> tech tobj' = Some tc)))
   \<and> (\<forall>e. fst (registerTargets n) = Some e \<longrightarrow>
          requireSources J fuel sources n = Some (Inl e, snd (registerTargets n))
        \<and> build J fuel targets n = Some (Inl e, snd (registerTargets n))
        \<and> invoked (snd (registerTargets n)) = invoked n
        \<and> tech_started (snd (registerTargets n)) = tech_started n
        \<and> (\<exists>t a b. e = Error (concurrent_techs_message t a b)))
   \<and> (\<forall>i j. \<not> registered n \<and> i < j \<and> j < length (techs n)
          \<and> tgt \<in> set (getTargets (techs n ! i)) \<and> tgt \<in> set (getTargets (techs n ! j)) \<longrightarrow>
          fst (registerTargets n) \<noteq> None)"
proof -
  have 1: "registerTarget tgt tc n =
        (Some (Error (concurrent_techs_message tgt (getName old) (getName tc))), n)"
    if "map_of (targetNames n) tgt = Some tobj" "tech tobj = Some old" for tobj old
  proof -
    have t: "target_at n tgt = Some tobj" using that by (simp add: target_at_def)
    then show ?thesis
      using that registerTarget_taken [of n tgt old tc] getTarget_snd_present [OF t] by simp
  qed
  have 2: "\<exists>n'. registerTarget tgt tc n = (None, n')
           \<and> (\<exists>tobj'. map_of (targetNames n') tgt = Some tobj' \<and> tech tobj' = Some tc)"
    if "\<forall>tobj. map_of (targetNames n) tgt = Some tobj \<longrightarrow> tech tobj = None"
  proof -
    have free: "tech (the_target n tgt) = None" using that by (simp add: unowned_the_target)
    show ?thesis
      by (simp add: registerTarget_free [OF free] map_of_target_at)
  qed
  have 3: "requireSources J fuel sources n = Some (Inl e, snd (registerTargets n))
        \<and> build J fuel targets n = Some (Inl e, snd (registerTargets n))
        \<and> invoked (snd (registerTargets n)) = invoked n
        \<and> tech_started (snd (registerTargets n)) = tech_started n
        \<and> (\<exists>t a b. e = Error (concurrent_techs_message t a b))"
    if e: "fst (registerTargets n) = Some e" for e
  proof -
    obtain n1 where r: "registerTargets n = (Some e, n1)"
      using e by (cases "registerTargets n") simp
    have rs: "requireSources J fuel ss n = Some (Inl e, n1)" for ss
      using r by simp
    show ?thesis
      using rs r registerTargets_no_build [of n] registerTargets_error_form [OF e]
      by (simp add: build_def Let_def)
  qed
  have 4: "fst (registerTargets n) \<noteq> None"
    if h: "\<not> registered n" "i < j" "j < length (techs n)"
      "tgt \<in> set (getTargets (techs n ! i))" "tgt \<in> set (getTargets (techs n ! j))" for i j
  proof
    assume none: "fst (registerTargets n) = None"
    obtain r n1 where r: "registerTargets_loop (techs n) n = (r, n1)"
      by (cases "registerTargets_loop (techs n) n")
    have "r = None" using none h(1) r by (cases r) (simp_all add: registerTargets_def)
    with r registerTargets_loop_ok [of "techs n" n n1]
    have "set (getTargets (techs n ! i)) \<inter> set (getTargets (techs n ! j)) = {}"
      using h(2,3) by blast
    then show False using h(4,5) by blast
  qed
  from 1 2 3 4 show ?thesis by blast
qed

theorem registerTarget_second_binding_witness:
  "fst (registerTargets conflict_node) = Some (Error (concurrent_techs_message ''index.js'' ''js'' ''js2''))
   \<and> requireSources join_slash 4 [''index.js''] conflict_node =
        Some (Inl (Error (concurrent_techs_message ''index.js'' ''js'' ''js2'')),
              snd (registerTargets conflict_node))
   \<and> invoked (snd (registerTargets conflict_node)) = []
   \<and> registerTarget ''index.js'' tech_js2 (snd (registerTargets conflict_node)) =
        (Some (Error (concurrent_techs_message ''index.js'' ''js'' ''js2'')),
         snd (registerTargets conflict_node))
   \<and> (\<exists>n'. registerTarget ''index.js'' tech_js conflict_node = (None, n')
          \<and> (\<exists>tobj'. map_of (targetNames n') ''index.js'' = Some tobj' \<and> tech tobj' = Some tech_js))"
proof -
  let ?mid = "snd (registerTargets conflict_node)"
  have e: "fst (registerTargets conflict_node)
             = Some (Error (concurrent_techs_message ''index.js'' ''js'' ''js2''))"
    by code_simp
  have i: "invoked conflict_node = []" by code_simp
  have nr: "\<not> registered conflict_node" by code_simp
  have d: "(0::nat) < 1" "1 < length (techs conflict_node)"
    "''index.js'' \<in> set (getTargets (techs conflict_node ! 0))"
    "''index.js'' \<in> set (getTargets (techs conflict_node ! 1))"
    by code_simp+
  have fresh: "map_of (targetNames conflict_node) ''index.js'' = None" by code_simp
  have bound: "map_of (targetNames ?mid) ''index.js''
                 = Some \<lparr>tech = Some tech_js, started = False, isValid = False, deferred = Pending\<rparr>"
    by code_simp
  have nm: "getName tech_js = ''js''" "getName tech_js2 = ''js2''" by code_simp+
  note a = registerTarget_second_binding
    [where n = conflict_node and tgt = "''index.js''" and tc = tech_js and J = join_slash
       and fuel = 4 and sources = "[''index.js'']" and targets = None]
  note b = registerTarget_second_binding
    [where n = ?mid and tgt = "''index.js''" and tc = tech_js2 and J = join_slash
       and fuel = 4 and sources = "[''index.js'']" and targets = None]
  have 1: "requireSources join_slash 4 [''index.js''] conflict_node =
        Some (Inl (Error (concurrent_techs_message ''index.js'' ''js'' ''js2'')), ?mid)
      \<and> invoked ?mid = []"
    using a e i by simp
  have 2: "registerTarget ''index.js'' tech_js2 ?mid =
        (Some (Error (concurrent_techs_message ''index.js'' ''js'' ''js2'')), ?mid)"
    using b bound nm by simp
  have 3: "\<exists>n'. registerTarget ''index.js'' tech_js conflict_node = (None, n')
          \<and> (\<exists>tobj'. map_of (targetNames n') ''index.js'' = Some tobj' \<and> tech tobj' = Some tech_js)"
    using a fresh by simp
  have 4: "fst (registerTargets conflict_node) \<noteq> None"
    using a nr d by blast
  from e 1 2 3 show ?thesis by simp
qed

subsection \<open>Expansion and deduplication of the requested targets\<close>

lemma set_first_seen [simp]: "set (first_seen xs) = set xs"
  by (induction xs rule: first_seen.induct) auto

lemma distinct_first_seen [simp]: "distinct (first_seen xs)"
  by (induction xs rule: first_seen.induct) auto

lemma uniq_loop_first_seen:
  "uniq_loop xs res = res @ first_seen (filter (\<lambda>x. x \<notin> set res) xs)"
proof (induction xs arbitrary: res)
  case Nil
  show ?case by simp
next
  case (Cons x xs)
  show ?case
  proof (cases "x \<in> set res")
    case True
    then show ?thesis using Cons.IH [of res] by simp
  next
    case False
    have "filter (\<lambda>y. y \<noteq> x) (filter (\<lambda>y. y \<notin> set res) xs)
          = filter (\<lambda>y. y \<notin> set (res @ [x])) xs"
      by (induction xs) auto
    then show ?thesis using False Cons.IH [of "res @ [x]"] by simp
  qed
qed

lemma uniq_first_seen: "uniq xs = first_seen xs"
  by (simp add: uniq_def uniq_loop_first_seen)

lemma expandTargets_expand_star:
  "expandTargets ts dflt n = expand_star dflt (object_keys (targetNames n)) ts"
  by (induction ts) (simp_all add: expandTargets_def)

lemma set_object_keys: "set (object_keys al) = fst ` set al"
  by (auto simp: object_keys_def Let_def)

lemma resolveTargets_Some:
  "resolveTargets (Some ts) dflt n = first_seen (expand_star dflt (object_keys (targetNames n)) ts)"
  by (simp add: resolveTargets_def uniq_first_seen expandTargets_expand_star)

text \<open>
  C4. For a list of requested targets, \<open>_resolveTargets\<close> replaces each \<open>*\<close> by the
  default list, or by the keys of \<open>_targetNames\<close> (the names that have an entry) when
  the default list is empty, and keeps each name of the result where it is first seen: the
  list has no duplicates and the names of the expansion. The expansion is computed from
  the arguments and the node of the one call.
\<close>

theorem resolveTargets_expands_and_dedups:
  "resolveTargets (Some ts) dflt n = first_seen (expand_star dflt (object_keys (targetNames n)) ts)
   \<and> distinct (resolveTargets (Some ts) dflt n)
   \<and> set (resolveTargets (Some ts) dflt n) = set (expand_star dflt (object_keys (targetNames n)) ts)
   \<and> set (object_keys (targetNames n)) = fst ` set (targetNames n)"
  by (simp add: resolveTargets_Some set_object_keys)

theorem resolveTargets_expands_and_dedups_witness:
  "resolveTargets (Some [''b.js'', ''*'', ''index.js'', ''b.js'']) [] registered_sample
     = [''b.js'', ''index.js'', ''index.css'', ''boom.js'', ''late.js'']
   \<and> resolveTargets (Some [''*'', ''a'', ''*'']) [''x'', ''a''] registered_sample = [''x'', ''a'']"
proof -
  have 1: "first_seen (expand_star [] (object_keys (targetNames registered_sample))
             [''b.js'', ''*'', ''index.js'', ''b.js''])
           = [''b.js'', ''index.js'', ''index.css'', ''boom.js'', ''late.js'']"
    by code_simp
  have 2: "first_seen (expand_star [''x'', ''a''] (object_keys (targetNames registered_sample))
             [''*'', ''a'', ''*'']) = [''x'', ''a'']"
    by code_simp
  from resolveTargets_expands_and_dedups [of "[''b.js'', ''*'', ''index.js'', ''b.js'']" "[]" registered_sample]
    resolveTargets_expands_and_dedups [of "[''*'', ''a'', ''*'']" "[''x'', ''a'']" registered_sample]
  show ?thesis unfolding 1 2 by simp
qed

subsection \<open>Targets with a technology\<close>











section \<open>The technologies: the cache is written after the output file\<close>

lemma emit_fields [simp]:
  "effects (emit ev w) = effects w @ [ev]"
  "cache (emit ev w) = cache w"
  "disk (emit ev w) = disk w"
  "read_only (emit ev w) = read_only w"
  "clock (emit ev w) = clock w"
  "the_node (emit ev w) = the_node w"
  by (simp_all add: emit_def)

lemma notify_fields [simp]:
  "effects (notify_resolved tgt v w) = effects w @ [Resolved tgt]"
  "cache (notify_resolved tgt v w) = cache w"
  "disk (notify_resolved tgt v w) = disk w"
  "effects (notify_valid tgt w) = effects w @ [MarkedValid tgt]"
  "cache (notify_valid tgt w) = cache w"
  "disk (notify_valid tgt w) = disk w"
  by (simp_all add: notify_resolved_def notify_valid_def)

lemma cacheFileInfo_fields [simp]:
  "effects (cacheFileInfo key p w) = effects w @ [CachedFileInfo key p]"
  "disk (cacheFileInfo key p w) = disk w"
  by (simp_all add: cacheFileInfo_def)

lemma cacheFileList_fields [simp]:
  "effects (cacheFileList key fs w) = effects w @ [CachedFileList key]"
  "disk (cacheFileList key fs w) = disk w"
  by (simp_all add: cacheFileList_def)

lemma require_module_frame:
  "require_module p w = (r, w1) \<Longrightarrow>
     cache w1 = cache w \<and> disk w1 = disk w \<and> read_only w1 = read_only w
     \<and> (\<exists>evs. effects w1 = effects w @ evs \<and> (\<forall>ev\<in>set evs. \<not> is_cache_write ev \<and> ev \<noteq> MarkedValid t))"
  by (auto simp: require_module_def split: option.splits)

lemma require_sources_frame:
  "require_sources env ss acc w = (r, w1) \<Longrightarrow>
     cache w1 = cache w \<and> disk w1 = disk w \<and> read_only w1 = read_only w
     \<and> (\<exists>evs. effects w1 = effects w @ evs \<and> (\<forall>ev\<in>set evs. \<not> is_cache_write ev \<and> ev \<noteq> MarkedValid t))"
proof (induction ss arbitrary: acc w)
  case Nil
  then show ?case by simp
next
  case (Cons s rest)
  obtain r0 w0 where m: "require_module (resolvePath env s) w = (r0, w0)"
    by (cases "require_module (resolvePath env s) w")
  from require_module_frame [OF m, of t] obtain evs0 where
    f0: "cache w0 = cache w" "disk w0 = disk w" "read_only w0 = read_only w"
    "effects w0 = effects w @ evs0" "\<forall>ev\<in>set evs0. \<not> is_cache_write ev \<and> ev \<noteq> MarkedValid t"
    by blast
  show ?case
  proof (cases r0)
    case (Inl e)
    then show ?thesis using Cons.prems m f0 by auto
  next
    case (Inr md)
    then have "require_sources env rest (acc @ [md]) w0 = (r, w1)" using Cons.prems m by simp
    from Cons.IH [OF this] obtain evs1 where
      "cache w1 = cache w0" "disk w1 = disk w0" "read_only w1 = read_only w0"
      "effects w1 = effects w0 @ evs1" "\<forall>ev\<in>set evs1. \<not> is_cache_write ev \<and> ev \<noteq> MarkedValid t"
      by blast
    then show ?thesis using f0 by auto
  qed
qed

lemma write_file_frame:
  "write_file p c w = (r, w1) \<Longrightarrow>
     cache w1 = cache w
     \<and> (r = None \<longrightarrow> effects w1 = effects w @ [Wrote p] \<and> disk w1 p = Some \<lparr>data = c, modified = clock w\<rparr>)
     \<and> (r \<noteq> None \<longrightarrow> effects w1 = effects w @ [WriteFailed p] \<and> disk w1 = disk w)"
  by (auto simp: write_file_def split: if_splits)

lemma cache_sources_frame:
  "disk (cache_sources env ss w) = disk w
   \<and> (\<exists>evs. effects (cache_sources env ss w) = effects w @ evs \<and> (\<forall>ev\<in>set evs. ev \<noteq> MarkedValid t))"
proof (induction ss arbitrary: w)
  case Nil
  show ?case by simp
next
  case (Cons s rest)
  from Cons.IH [of "cacheFileInfo s (resolvePath env s) w"] show ?case by auto
qed

lemma recorded_no_cache_write:
  "\<forall>ev\<in>set evs. \<not> is_cache_write ev \<Longrightarrow> recorded_after_write out evs"
  by (induction evs) auto

lemma recorded_append:
  "\<forall>ev\<in>set evs. \<not> is_cache_write ev \<Longrightarrow> recorded_after_write out rest \<Longrightarrow>
   recorded_after_write out (evs @ rest)"
  by (induction evs) auto

lemma valid_branch_discipline:
  assumes "require_module out (notify_valid tgt w) = (r, w2)"
  shows "cache_discipline out tgt w
           (case r of Inl e \<Rightarrow> (Rejected e, w2)
            | Inr m \<Rightarrow> (Fulfilled (), notify_resolved tgt (f m) w2))"
proof -
  from require_module_frame [OF assms, of tgt] obtain evs where
    f: "cache w2 = cache w" "effects w2 = effects w @ [MarkedValid tgt] @ evs"
    "\<forall>ev\<in>set evs. \<not> is_cache_write ev"
    by auto
  show ?thesis
  proof (cases r)
    case (Inl e)
    then show ?thesis
      unfolding cache_discipline_def using f
      by (auto intro!: recorded_no_cache_write)
  next
    case (Inr m)
    have "recorded_after_write out ([MarkedValid tgt] @ evs @ [Resolved tgt])"
      using f(3) by (intro recorded_no_cache_write) auto
    then show ?thesis
      unfolding cache_discipline_def using Inr f by auto
  qed
qed

lemma bemdecl_merge_discipline:
  "cache_discipline (resolvePath env tgt) tgt w (bemdecl_merge_then env tgt sources w)"
proof -
  let ?out = "resolvePath env tgt"
  let ?need = "needRebuildFile w ''bemdecl-file'' ?out"
  let ?rebuild = "if \<not> ?need then any_source_changed env w sources ?need else ?need"
  show ?thesis
  proof (cases ?rebuild)
    case False
    obtain r w2 where m: "require_module ?out (notify_valid tgt w) = (r, w2)"
      by (cases "require_module ?out (notify_valid tgt w)")
    have "bemdecl_merge_then env tgt sources w =
            (case r of Inl e \<Rightarrow> (Rejected e, w2)
             | Inr md \<Rightarrow> (Fulfilled (), notify_resolved tgt (deps_of env md) w2))"
      using False m by (auto simp: bemdecl_merge_then_def Let_def split: sum.splits if_splits)
    then show ?thesis using valid_branch_discipline [OF m, of "deps_of env"] by simp
  next
    case True
    obtain r w1 where rs: "require_sources env sources [] w = (r, w1)"
      by (cases "require_sources env sources [] w")
    from require_sources_frame [OF rs, of tgt] obtain evs1 where
      f1: "cache w1 = cache w" "effects w1 = effects w @ evs1"
      "\<forall>ev\<in>set evs1. \<not> is_cache_write ev \<and> ev \<noteq> MarkedValid tgt"
      by blast
    show ?thesis
    proof (cases r)
      case (Inl e)
      then have "bemdecl_merge_then env tgt sources w = (Rejected e, w1)"
        using True rs by (auto simp: bemdecl_merge_then_def Let_def split: if_splits)
      then show ?thesis
        unfolding cache_discipline_def using f1 by (auto intro!: recorded_no_cache_write)
    next
      case (Inr mods)
      let ?c = "render env (merge_deps env mods)"
      obtain wr w2 where wf: "write_file ?out ?c w1 = (wr, w2)"
        by (cases "write_file ?out ?c w1")
      note f2 = write_file_frame [OF wf]
      show ?thesis
      proof (cases wr)
        case (Some e)
        then have "bemdecl_merge_then env tgt sources w = (Rejected e, w2)"
          using True rs Inr wf by (auto simp: bemdecl_merge_then_def Let_def split: if_splits)
        moreover have "recorded_after_write ?out (evs1 @ [WriteFailed ?out])"
          using f1(3) by (intro recorded_no_cache_write) auto
        ultimately show ?thesis
          unfolding cache_discipline_def using f1 f2 Some by auto
      next
        case None
        let ?w4 = "cache_sources env sources (cacheFileInfo ''bemdecl-file'' ?out w2)"
        have b: "bemdecl_merge_then env tgt sources w
                   = (Fulfilled (), notify_resolved tgt (merge_deps env mods) ?w4)"
          using True rs Inr wf None by (auto simp: bemdecl_merge_then_def Let_def split: if_splits)
        from cache_sources_frame [of env sources "cacheFileInfo ''bemdecl-file'' ?out w2" tgt]
        obtain evs3 where
          f3: "effects ?w4 = effects w2 @ [CachedFileInfo ''bemdecl-file'' ?out] @ evs3"
          "\<forall>ev\<in>set evs3. ev \<noteq> MarkedValid tgt"
          by auto
        let ?evs = "evs1 @ Wrote ?out # CachedFileInfo ''bemdecl-file'' ?out # evs3 @ [Resolved tgt]"
        have e: "effects (notify_resolved tgt (merge_deps env mods) ?w4) = effects w @ ?evs"
          using f1 f2 f3 None by simp
        have r: "recorded_after_write ?out ?evs"
          using f1(3) by (intro recorded_append) auto
        have v: "MarkedValid tgt \<notin> set ?evs" using f1(3) f3(2) by auto
        have w: "Wrote ?out \<in> set ?evs" by simp
        show ?thesis
          unfolding cache_discipline_def b using e r v w by blast
      qed
    qed
  qed
qed

lemma deps_discipline:
  "cache_discipline (resolvePath env tgt) tgt w (deps_then env tgt bemdeclSource depFiles w)"
proof -
  let ?out = "resolvePath env tgt"
  let ?src = "resolvePath env bemdeclSource"
  let ?rebuild = "needRebuildFile w ''deps-file'' ?out \<or> needRebuildFile w ''bemdecl-file'' ?src
                    \<or> needRebuildFileList w ''deps-file-list'' depFiles"
  show ?thesis
  proof (cases ?rebuild)
    case False
    obtain r w2 where m: "require_module ?out (notify_valid tgt w) = (r, w2)"
      by (cases "require_module ?out (notify_valid tgt w)")
    have "deps_then env tgt bemdeclSource depFiles w =
            (case r of Inl e \<Rightarrow> (Rejected e, w2)
             | Inr md \<Rightarrow> (Fulfilled (), notify_resolved tgt (deps_of env md) w2))"
      using False m by (auto simp: deps_then_def Let_def split: sum.splits)
    then show ?thesis using valid_branch_discipline [OF m, of "deps_of env"] by simp
  next
    case True
    obtain r w1 where rs: "require_module ?src w = (r, w1)"
      by (cases "require_module ?src w")
    from require_module_frame [OF rs, of tgt] obtain evs1 where
      f1: "cache w1 = cache w" "effects w1 = effects w @ evs1"
      "\<forall>ev\<in>set evs1. \<not> is_cache_write ev \<and> ev \<noteq> MarkedValid tgt"
      by blast
    have nc: "recorded_after_write ?out evs1" using f1(3) by (intro recorded_no_cache_write) auto
    show ?thesis
    proof (cases r)
      case (Inl e)
      then have "deps_then env tgt bemdeclSource depFiles w = (Rejected e, w1)"
        using True rs by (auto simp: deps_then_def Let_def)
      then show ?thesis
        unfolding cache_discipline_def using f1 nc by auto
    next
      case (Inr bemdecl)
      show ?thesis
      proof (cases "resolve_deps env bemdecl depFiles")
        case (Inl e)
        then have "deps_then env tgt bemdeclSource depFiles w = (Rejected e, w1)"
          using True rs Inr by (auto simp: deps_then_def Let_def)
        then show ?thesis
          unfolding cache_discipline_def using f1 nc by auto
      next
        case rd: (Inr resolvedDeps)
        let ?c = "render env resolvedDeps"
        obtain wr w2 where wf: "write_file ?out ?c w1 = (wr, w2)"
          by (cases "write_file ?out ?c w1")
        note f2 = write_file_frame [OF wf]
        show ?thesis
        proof (cases wr)
          case (Some e)
          then have "deps_then env tgt bemdeclSource depFiles w = (Rejected e, w2)"
            using True rs Inr rd wf by (auto simp: deps_then_def Let_def)
          moreover have "recorded_after_write ?out (evs1 @ [WriteFailed ?out])"
            using f1(3) by (intro recorded_no_cache_write) auto
          ultimately show ?thesis
            unfolding cache_discipline_def using f1 f2 Some by auto
        next
          case None
          let ?w5 = "cacheFileList ''deps-file-list'' depFiles
                       (cacheFileInfo ''bemdecl-file'' ?src (cacheFileInfo ''deps-file'' ?out w2))"
          have b: "deps_then env tgt bemdeclSource depFiles w
                     = (Fulfilled (), notify_resolved tgt resolvedDeps ?w5)"
            using True rs Inr rd wf None by (auto simp: deps_then_def Let_def)
          let ?evs = "evs1 @ [Wrote ?out, CachedFileInfo ''deps-file'' ?out,
                        CachedFileInfo ''bemdecl-file'' ?src, CachedFileList ''deps-file-list'',
                        Resolved tgt]"
          have e: "effects (notify_resolved tgt resolvedDeps ?w5) = effects w @ ?evs"
            using f1 f2 None by simp
          have r: "recorded_after_write ?out ?evs"
            using f1(3) by (intro recorded_append) auto
          have v: "MarkedValid tgt \<notin> set ?evs" using f1(3) by auto
          have w: "Wrote ?out \<in> set ?evs" by simp
          show ?thesis
            unfolding cache_discipline_def b using e r v w by blast
        qed
      qed
    qed
  qed
qed

text \<open>
  C8. In the build routines of bemdecl-merge and deps, on every path: the effects of the
  run have each cache write after the write of the output file; the cache is changed only
  by a run that wrote the output file and whose promise is fulfilled; a run that finds the
  target valid leaves the cache as it was; and so does a run whose promise is rejected (a
  module that does not load, a resolver that throws, a write that fails).
\<close>

theorem cache_recorded_after_write:
  "cache_discipline (resolvePath env tgt) tgt w (bemdecl_merge_then env tgt sources w)
   \<and> cache_discipline (resolvePath env tgt) tgt w (deps_then env tgt bemdeclSource depFiles w)"
  by (simp add: bemdecl_merge_discipline deps_discipline)

theorem cache_recorded_after_write_witness:
  "effects merged_world =
     [Loaded ''/p/a.bemdecl.js'', Loaded ''/p/b.bemdecl.js'', Wrote ''/p/all.bemdecl.js'',
      CachedFileInfo ''bemdecl-file'' ''/p/all.bemdecl.js'',
      CachedFileInfo ''a.bemdecl.js'' ''/p/a.bemdecl.js'',
      CachedFileInfo ''b.bemdecl.js'' ''/p/b.bemdecl.js'', Resolved ''all.bemdecl.js'']
   \<and> cache merged_world \<noteq> cache sample_world
   \<and> recorded_after_write ''/p/all.bemdecl.js'' (effects merged_world)
   \<and> effects (snd (bemdecl_merge_then sample_env ''all.bemdecl.js'' [''a.bemdecl.js'', ''b.bemdecl.js'']
                       merged_world))
       = effects merged_world @ [MarkedValid ''all.bemdecl.js'', Loaded ''/p/all.bemdecl.js'',
                                 Resolved ''all.bemdecl.js'']
   \<and> cache (snd (bemdecl_merge_then sample_env ''all.bemdecl.js'' [''a.bemdecl.js'', ''b.bemdecl.js'']
                       merged_world))
       = cache merged_world"
proof -
  let ?run = "bemdecl_merge_then sample_env ''all.bemdecl.js'' [''a.bemdecl.js'', ''b.bemdecl.js'']"
  have p: "resolvePath sample_env ''all.bemdecl.js'' = ''/p/all.bemdecl.js''" by code_simp
  have e0: "effects sample_world = []" by code_simp
  have e1: "effects merged_world =
     [Loaded ''/p/a.bemdecl.js'', Loaded ''/p/b.bemdecl.js'', Wrote ''/p/all.bemdecl.js'',
      CachedFileInfo ''bemdecl-file'' ''/p/all.bemdecl.js'',
      CachedFileInfo ''a.bemdecl.js'' ''/p/a.bemdecl.js'',
      CachedFileInfo ''b.bemdecl.js'' ''/p/b.bemdecl.js'', Resolved ''all.bemdecl.js'']"
    by code_simp
  have "cache merged_world ''bemdecl-file'' \<noteq> cache sample_world ''bemdecl-file''" by code_simp
  then have c1: "cache merged_world \<noteq> cache sample_world" by auto
  have e2: "effects (snd (?run merged_world))
       = effects merged_world @ [MarkedValid ''all.bemdecl.js'', Loaded ''/p/all.bemdecl.js'',
                                 Resolved ''all.bemdecl.js'']"
    by code_simp
  note a = cache_recorded_after_write
    [of sample_env "''all.bemdecl.js''" sample_world "[''a.bemdecl.js'', ''b.bemdecl.js'']", THEN conjunct1]
  note b = cache_recorded_after_write
    [of sample_env "''all.bemdecl.js''" merged_world "[''a.bemdecl.js'', ''b.bemdecl.js'']", THEN conjunct1]
  have r1: "recorded_after_write ''/p/all.bemdecl.js'' (effects merged_world)"
    using a unfolding cache_discipline_def p merged_world_def [symmetric]
    by (auto simp: e0 merged_world_def split: prod.splits)
  have c2: "cache (snd (?run merged_world)) = cache merged_world"
    using b e2 unfolding cache_discipline_def p
    by (auto split: prod.splits)
  from e1 c1 r1 e2 c2 show ?thesis by blast
qed

subsection \<open>Registration depends on the bindings only\<close>

lemma binding_getTarget: "binding (snd (getTarget tgt n)) = binding n"
  by (auto simp: binding_def the_target_def fun_eq_iff split: option.splits)

lemma registerTarget_binding:
  assumes "binding n = binding m"
  shows "fst (registerTarget tgt tc n) = fst (registerTarget tgt tc m)
       \<and> binding (snd (registerTarget tgt tc n)) = binding (snd (registerTarget tgt tc m))"
proof -
  have bn: "tech (the_target n x) = tech (the_target m x)" for x
    using assms by (simp add: binding_def fun_eq_iff)
  show ?thesis
  proof (cases "tech (the_target n tgt)")
    case None
    then have m: "tech (the_target m tgt) = None" using bn [of tgt] by simp
    have a: "fst (registerTarget tgt tc n) = None" "fst (registerTarget tgt tc m) = None"
      using None m by (simp_all add: registerTarget_error_iff)
    have b: "tech (the_target (snd (registerTarget tgt tc n)) x)
               = tech (the_target (snd (registerTarget tgt tc m)) x)" for x
      using registerTarget_free_the_target [OF None, of tc x]
        registerTarget_free_the_target [OF m, of tc x] bn by simp
    show ?thesis using a b by (simp add: binding_def fun_eq_iff)
  next
    case (Some old)
    then have "tech (the_target m tgt) = Some old" using bn [of tgt] by simp
    then show ?thesis
      using Some assms by (simp add: registerTarget_taken binding_getTarget)
  qed
qed

lemma registerTargets_of_binding:
  "binding n = binding m \<Longrightarrow>
   fst (registerTargets_of tc tgts n) = fst (registerTargets_of tc tgts m)
   \<and> binding (snd (registerTargets_of tc tgts n)) = binding (snd (registerTargets_of tc tgts m))"
proof (induction tgts arbitrary: n m)
  case Nil
  then show ?case by simp
next
  case (Cons tgt rest)
  obtain r n1 where rn: "registerTarget tgt tc n = (r, n1)" by (cases "registerTarget tgt tc n")
  obtain r' m1 where rm': "registerTarget tgt tc m = (r', m1)" by (cases "registerTarget tgt tc m")
  have eq: "r' = r" "binding n1 = binding m1"
    using registerTarget_binding [OF Cons.prems, of tgt tc] rn rm' by simp_all
  have rm: "registerTarget tgt tc m = (r, m1)" using rm' eq(1) by simp
  show ?case
    using rn rm eq(2) Cons.IH [OF eq(2)] by (cases r) simp_all
qed

lemma registerTargets_loop_binding:
  "binding n = binding m \<Longrightarrow>
   fst (registerTargets_loop ts n) = fst (registerTargets_loop ts m)
   \<and> binding (snd (registerTargets_loop ts n)) = binding (snd (registerTargets_loop ts m))"
proof (induction ts arbitrary: n m)
  case Nil
  then show ?case by simp
next
  case (Cons tc rest)
  obtain r n1 where rn: "registerTargets_of tc (getTargets tc) n = (r, n1)"
    by (cases "registerTargets_of tc (getTargets tc) n")
  obtain r' m1 where rm': "registerTargets_of tc (getTargets tc) m = (r', m1)"
    by (cases "registerTargets_of tc (getTargets tc) m")
  have eq: "r' = r" "binding n1 = binding m1"
    using registerTargets_of_binding [OF Cons.prems, of tc "getTargets tc"] rn rm' by simp_all
  have rm: "registerTargets_of tc (getTargets tc) m = (r, m1)" using rm' eq(1) by simp
  show ?case
    using rn rm eq(2) Cons.IH [OF eq(2)] by (cases r) simp_all
qed

lemma registerTargets_binding:
  assumes "binding n = binding m" "registered n = registered m" "techs n = techs m"
  shows "fst (registerTargets n) = fst (registerTargets m)
       \<and> binding (snd (registerTargets n)) = binding (snd (registerTargets m))"
proof (cases "registered n")
  case True
  then show ?thesis using assms by (simp add: registerTargets_def)
next
  case False
  obtain r n1 where rn: "registerTargets_loop (techs n) n = (r, n1)"
    by (cases "registerTargets_loop (techs n) n")
  obtain r' m1 where rm': "registerTargets_loop (techs n) m = (r', m1)"
    by (cases "registerTargets_loop (techs n) m")
  have eq: "r' = r" "binding n1 = binding m1"
    using registerTargets_loop_binding [OF assms(1), of "techs n"] rn rm' by simp_all
  have rm: "registerTargets_loop (techs n) m = (r, m1)" using rm' eq(1) by simp
  have "binding (n1\<lparr>registered := True\<rparr>) = binding n1" "binding (m1\<lparr>registered := True\<rparr>) = binding m1"
    by (simp_all add: binding_def the_target_def target_at_def fun_eq_iff)
  then show ?thesis
    using False assms rn rm eq by (cases r) (simp_all add: registerTargets_def)
qed

lemma binding_resolveTarget: "binding (resolveTarget tgt v n) = binding n"
  by (auto simp: binding_def the_target_def resolveTarget_target_at fun_eq_iff new_target_def
           split: option.splits)

lemma binding_rejectTarget: "binding (rejectTarget tgt err n) = binding n"
  by (auto simp: binding_def the_target_def rejectTarget_target_at fun_eq_iff new_target_def
           split: option.splits)

lemma requireSources_unowned_after:
  assumes reg: "registerTargets n = (None, n0)"
    and un: "tech (the_target n0 (unmaskTargetName n s)) = None"
    and same: "binding m = binding n" "registered m = registered n" "techs m = techs n"
      "targetName m = targetName n" "path m = path n" "invoked m = invoked n"
  shows "\<exists>n'. requireSources J fuel [s] m =
            Some (Inr [RejectedPromise (TargetNotFoundError
                         (not_found_message J (path n) (unmaskTargetName n s)))], n')
          \<and> invoked n' = invoked n"
proof -
  obtain r m0 where rm: "registerTargets m = (r, m0)" by (cases "registerTargets m")
  have eq: "r = None" "binding m0 = binding n0"
    using registerTargets_binding [OF same(1,2,3)] rm reg by simp_all
  have e: "ext m m0" using ext_registerTargets [of m] rm by simp
  have u: "unmaskTargetName m0 s = unmaskTargetName n s"
    using ext_unmask [OF e] unmask_cong [OF same(4)] by simp
  have p: "path m0 = path n" using e same(5) by (simp add: ext_def)
  have i: "invoked m0 = invoked n" using registerTargets_no_build [of m] rm same(6) by simp
  have "tech (the_target m0 (unmaskTargetName m0 s)) = None"
    using un eq(2) u by (simp add: binding_def fun_eq_iff)
  from requireSource_unowned_frame [OF this, of J fuel] obtain n' where
    "requireSource J fuel s m0 =
       Some (RejectedPromise (TargetNotFoundError (not_found_message J (path m0) (unmaskTargetName m0 s))), n')"
    "invoked n' = invoked m0" by blast
  then show ?thesis using rm eq(1) u p i by simp
qed

section \<open>The claims about requests and builds\<close>

subsection \<open>Fail handlers\<close>

lemma only_rejects_refl [simp]: "only_rejects n n"
  by (simp add: only_rejects_def)


lemma future_state_handlers [simp]: "future_state (n\<lparr>fail_handlers := hs\<rparr>) fut = future_state n fut"
  by (simp add: future_state_def split: future.splits)

lemma target_at_handlers [simp]: "target_at (n\<lparr>fail_handlers := hs\<rparr>) = target_at n"
  by (simp add: target_at_def fun_eq_iff)

lemma rejectTarget_fail_handlers [simp]: "fail_handlers (rejectTarget tgt err n) = fail_handlers n"
  by (simp add: rejectTarget_def getTarget_def setTarget_def logCall_def Let_def split: option.splits)














subsection \<open>A build routine that throws\<close>






subsection \<open>One invocation of a build routine\<close>

lemma requireSources_single_registered:
  "registered n \<Longrightarrow> requireSource J fuel s n = Some (fut, n') \<Longrightarrow>
   requireSources J fuel [s] n = Some (Inr [fut], n')"
  by (simp add: registerTargets_registered)





subsection \<open>A requested name without a technology\<close>

lemma vow_all_reports_first:
  "vow_all ps = Rejected e \<Longrightarrow>
   \<exists>j<length ps. ps ! j = Rejected e \<and> (\<forall>k<j. \<forall>e'. ps ! k \<noteq> Rejected e')"
proof (induction ps)
  case Nil
  then show ?case by simp
next
  case (Cons p ps)
  show ?case
  proof (cases "\<exists>e'. p = Rejected e'")
    case True
    then have "p = Rejected e" using Cons.prems by auto
    then show ?thesis by (intro exI [of _ 0]) simp
  next
    case False
    then have "vow_all ps = Rejected e"
      using Cons.prems by (cases p) (auto split: promise.splits)
    from Cons.IH [OF this] obtain j where
      j: "j < length ps" "ps ! j = Rejected e" "\<forall>k<j. \<forall>e'. ps ! k \<noteq> Rejected e'" by blast
    have "\<forall>k<Suc j. \<forall>e'. (p # ps) ! k \<noteq> Rejected e'"
      using False j(3) by (auto simp: nth_Cons split: nat.splits)
    then show ?thesis using j(1,2) by (intro exI [of _ "Suc j"]) simp
  qed
qed

lemma vow_all_first_rejected:
  "i < length ps \<Longrightarrow> ps ! i = Rejected e \<Longrightarrow> (\<forall>j<i. \<forall>e'. ps ! j \<noteq> Rejected e') \<Longrightarrow>
   vow_all ps = Rejected e"
proof (induction ps arbitrary: i)
  case Nil
  then show ?case by simp
next
  case (Cons p ps)
  show ?case
  proof (cases i)
    case 0
    then show ?thesis using Cons.prems by simp
  next
    case (Suc k)
    have "vow_all ps = Rejected e"
    proof (rule Cons.IH [of k])
      show "k < length ps" using Cons.prems(1) Suc by simp
      show "ps ! k = Rejected e" using Cons.prems(2) Suc by simp
      show "\<forall>j<k. \<forall>e'. ps ! j \<noteq> Rejected e'"
        using Cons.prems(3) Suc by (metis Suc_less_eq nth_Cons_Suc)
    qed
    moreover have "\<forall>e'. p \<noteq> Rejected e'" using Cons.prems(3) Suc by (metis nth_Cons_0 zero_less_Suc)
    ultimately show ?thesis by (cases p) simp_all
  qed
qed

text \<open>
  C3, as stated, at a concrete input: \<open>boom.js\<close> and the unknown name \<open>zz\<close> are
  required together on the sample node. The future for \<open>zz\<close> is the promise rejected with
  the target-not-found error, but the outcome of the promise \<open>requireSources\<close> returns
  carries the failure of \<open>boom.js\<close>, which comes first in the list.
\<close>

theorem requireSources_not_found_counterexample:
  "map_of (targetNames registered_sample) ''zz'' = None
   \<and> requireSources join_slash 4 [''boom.js'', ''zz''] registered_sample \<noteq> None
   \<and> fst (the (requireSources join_slash 4 [''boom.js'', ''zz''] registered_sample)) =
        Inr [TargetPromise ''boom.js'',
             RejectedPromise (TargetNotFoundError ''There is no tech for target pages/index/zz.'')]
   \<and> vow_all (map (future_state (snd (the (requireSources join_slash 4 [''boom.js'', ''zz''] registered_sample))))
        [TargetPromise ''boom.js'',
         RejectedPromise (TargetNotFoundError ''There is no tech for target pages/index/zz.'')])
      = Rejected (Error ''boom'')"
  by code_simp

text \<open>
  C3, amended. A requested name without a technology gets a fresh promise rejected with
  \<open>TargetNotFoundError\<close>, whose message holds the node path joined with the name; the
  callback invokes no build routine for it (here: on any node \<open>m\<close>). In
  \<open>requireSources\<close>, once registration has gone through, the future at the position of
  such a name is that rejected promise, so \<open>Vow.all\<close> of the futures is rejected: with the
  error of the first future of the list that is rejected when \<open>requireSources\<close> returns,
  which is at or before that position. It is the target-not-found error of the name when
  no future before it is rejected, and so when the name is the only one requested; then
  no build routine has been invoked at all.
\<close>

theorem requireSources_target_not_found:
  assumes "registerTargets (n :: 'v node) = (None, n0)"
    and "\<forall>tobj. map_of (targetNames n0) (unmaskTargetName n src) = Some tobj \<longrightarrow> tech tobj = None"
    and "pending_techs n \<le> fuel"
    and "i < length sources" and "sources ! i = src"
  shows "(\<exists>futs n'. requireSources J fuel sources n = Some (Inr futs, n')
            \<and> length futs = length sources
            \<and> futs ! i = RejectedPromise (TargetNotFoundError
                            (not_found_message J (path n) (unmaskTargetName n src)))
            \<and> (\<exists>e j. j \<le> i \<and> vow_all (map (future_state n') futs) = Rejected e
                   \<and> future_state n' (futs ! j) = Rejected e
                   \<and> (\<forall>k<j. \<forall>e'. future_state n' (futs ! k) \<noteq> Rejected e'))
            \<and> ((\<forall>j<i. \<forall>e. future_state n' (futs ! j) \<noteq> Rejected e) \<longrightarrow>
                  vow_all (map (future_state n') futs) =
                    Rejected (TargetNotFoundError (not_found_message J (path n) (unmaskTargetName n src))))
            \<and> (sources = [src] \<longrightarrow>
                  vow_all (map (future_state n') futs) =
                    Rejected (TargetNotFoundError (not_found_message J (path n) (unmaskTargetName n src)))
                  \<and> invoked n' = invoked n \<and> tech_started n' = tech_started n))
         \<and> (\<forall>m :: 'v node. (\<forall>tobj. map_of (targetNames m) (unmaskTargetName m src) = Some tobj \<longrightarrow> tech tobj = None) \<longrightarrow>
                (\<exists>m'. requireSource J fuel src m =
                         Some (RejectedPromise (TargetNotFoundError
                                 (not_found_message J (path m) (unmaskTargetName m src))), m')
                       \<and> invoked m' = invoked m \<and> tech_started m' = tech_started m))"
proof -
  let ?u = "unmaskTargetName n src"
  let ?tnf = "TargetNotFoundError (not_found_message J (path n) ?u)"
  let ?rej = "RejectedPromise ?tnf"
  have e0: "ext n n0" using ext_registerTargets [of n] assms(1) by simp
  have reg0: "registered n0" using registerTargets_ok_registered [OF assms(1)] .
  have p0: "pending_techs n0 \<le> fuel" using ext_pending [OF e0] assms(3) by simp
  have nb: "invoked n0 = invoked n" "tech_started n0 = tech_started n"
    using registerTargets_no_build [of n] assms(1) by simp_all
  have same: "path n0 = path n" "unmaskTargetName n0 s = unmaskTargetName n s" for s
    using e0 ext_unmask [OF e0] unfolding ext_def by simp_all
  have un0: "tech (the_target n0 (unmaskTargetName n0 src)) = None"
    using assms(2) unowned_the_target [of n0 ?u] same by simp
  from requireSources_map_unowned [OF reg0 p0, of J sources] obtain futs n' where
    r: "requireSources_map J fuel sources n0 = Some (futs, n')" and len: "length futs = length sources"
    and un: "\<forall>i<length sources. tech (the_target n0 (unmaskTargetName n0 (sources ! i))) = None \<longrightarrow>
           futs ! i = RejectedPromise (TargetNotFoundError
                        (not_found_message J (path n0) (unmaskTargetName n0 (sources ! i))))"
    by blast
  have res: "requireSources J fuel sources n = Some (Inr futs, n')"
    using assms(1) r by simp
  have fi: "futs ! i = ?rej" using un assms(4,5) un0 same by simp
  have at_i: "map (future_state n') futs ! i = Rejected ?tnf"
    using fi len assms(4) by (simp add: future_state_def)
  have "Rejected ?tnf \<in> set (map (future_state n') futs)"
    using at_i len assms(4) by (metis length_map nth_mem)
  then obtain e where e: "vow_all (map (future_state n') futs) = Rejected e"
    using vow_all_rejected by blast
  from vow_all_reports_first [OF e] obtain j where
    j: "j < length futs" "future_state n' (futs ! j) = Rejected e"
       "\<forall>k<j. \<forall>e'. future_state n' (futs ! k) \<noteq> Rejected e'"
    by auto
  have "j \<le> i"
  proof (rule ccontr)
    assume "\<not> j \<le> i"
    then have "i < j" by simp
    then show False using j(3) at_i len assms(4) by auto
  qed
  then have rejd: "\<exists>e j. j \<le> i \<and> vow_all (map (future_state n') futs) = Rejected e
                   \<and> future_state n' (futs ! j) = Rejected e
                   \<and> (\<forall>k<j. \<forall>e'. future_state n' (futs ! k) \<noteq> Rejected e')"
    using e j by blast
  have first: "vow_all (map (future_state n') futs) = Rejected ?tnf"
    if "\<forall>j<i. \<forall>e. future_state n' (futs ! j) \<noteq> Rejected e"
  proof (rule vow_all_first_rejected [of i])
    show "i < length (map (future_state n') futs)" using len assms(4) by simp
    show "map (future_state n') futs ! i = Rejected ?tnf" by (rule at_i)
    show "\<forall>j<i. \<forall>e'. map (future_state n') futs ! j \<noteq> Rejected e'"
      using that len assms(4) by simp
  qed
  have single: "vow_all (map (future_state n') futs) = Rejected ?tnf
                  \<and> invoked n' = invoked n \<and> tech_started n' = tech_started n"
    if "sources = [src]"
  proof -
    from requireSource_unowned_frame [OF un0, of J fuel] obtain m' where
      m': "requireSource J fuel src n0 =
             Some (RejectedPromise (TargetNotFoundError (not_found_message J (path n0) (unmaskTargetName n0 src))), m')"
      "invoked m' = invoked n0" "tech_started m' = tech_started n0" by blast
    with r that have "futs = [?rej]" "n' = m'" using same by simp_all
    then show ?thesis using m' nb by (simp add: future_state_def)
  qed
  have a: "\<exists>futs n'. requireSources J fuel sources n = Some (Inr futs, n')
            \<and> length futs = length sources
            \<and> futs ! i = ?rej
            \<and> (\<exists>e j. j \<le> i \<and> vow_all (map (future_state n') futs) = Rejected e
                   \<and> future_state n' (futs ! j) = Rejected e
                   \<and> (\<forall>k<j. \<forall>e'. future_state n' (futs ! k) \<noteq> Rejected e'))
            \<and> ((\<forall>j<i. \<forall>e. future_state n' (futs ! j) \<noteq> Rejected e) \<longrightarrow>
                  vow_all (map (future_state n') futs) = Rejected ?tnf)
            \<and> (sources = [src] \<longrightarrow>
                  vow_all (map (future_state n') futs) = Rejected ?tnf
                  \<and> invoked n' = invoked n \<and> tech_started n' = tech_started n)"
    using res len fi rejd first single by blast
  have b: "\<exists>m'. requireSource J fuel src m =
                         Some (RejectedPromise (TargetNotFoundError
                                 (not_found_message J (path m) (unmaskTargetName m src))), m')
                       \<and> invoked m' = invoked m \<and> tech_started m' = tech_started m"
    if "\<forall>tobj. map_of (targetNames m) (unmaskTargetName m src) = Some tobj \<longrightarrow> tech tobj = None"
    for m :: "'v node"
  proof -
    have "tech (the_target m (unmaskTargetName m src)) = None"
      using that by (simp add: unowned_the_target)
    from requireSource_unowned_frame [OF this, of J fuel] show ?thesis by blast
  qed
  from a b show ?thesis by blast
qed
lemma sample_after_css_zz:
  "fst (the (requireSources join_slash 4 [''?.css'', ''zz''] sample_node)) =
     Inr [TargetPromise ''index.css'',
          RejectedPromise (TargetNotFoundError ''There is no tech for target pages/index/zz.'')]"
  "future_state after_css_zz (TargetPromise ''index.css'') = Fulfilled 7"
  "invoked after_css_zz = [2]"
  by (code_simp, code_simp, code_simp)

theorem requireSources_target_not_found_witness:
  "requireSources join_slash 4 [''?.css'', ''zz''] sample_node =
      Some (Inr [TargetPromise ''index.css'',
                 RejectedPromise (TargetNotFoundError ''There is no tech for target pages/index/zz.'')],
            after_css_zz)
   \<and> future_state after_css_zz (TargetPromise ''index.css'') = Fulfilled 7
   \<and> invoked after_css_zz = [2]
   \<and> vow_all (map (future_state after_css_zz)
        [TargetPromise ''index.css'',
         RejectedPromise (TargetNotFoundError ''There is no tech for target pages/index/zz.'')]) =
       Rejected (TargetNotFoundError ''There is no tech for target pages/index/zz.'')
   \<and> (\<exists>futs n'. requireSources join_slash 4 [''zz''] sample_node = Some (Inr futs, n')
         \<and> vow_all (map (future_state n') futs) =
             Rejected (TargetNotFoundError ''There is no tech for target pages/index/zz.'')
         \<and> invoked n' = [])"
proof -
  have f: "fst (registerTargets sample_node) = None" by code_simp
  have h1: "registerTargets sample_node = (None, snd (registerTargets sample_node))"
    using f by (simp add: prod_eq_iff)
  have "map_of (targetNames (snd (registerTargets sample_node))) (unmaskTargetName sample_node ''zz'') = None"
    by code_simp
  then have h2: "\<forall>tobj. map_of (targetNames (snd (registerTargets sample_node)))
                   (unmaskTargetName sample_node ''zz'') = Some tobj \<longrightarrow> tech tobj = None"
    by simp
  have h3: "pending_techs sample_node \<le> 4" by code_simp
  have h4: "(1::nat) < length [''?.css'', ''zz'']" "[''?.css'', ''zz''] ! 1 = ''zz''" by simp_all
  have k4: "(0::nat) < length [''zz'']" "[''zz''] ! 0 = ''zz''" by simp_all
  have m: "not_found_message join_slash (path sample_node) (unmaskTargetName sample_node ''zz'')
           = ''There is no tech for target pages/index/zz.''"
    by code_simp
  have i: "invoked sample_node = []" by code_simp
  from requireSources_target_not_found [OF h1 h2 h3 h4, of join_slash]
  obtain futs n' where
    r: "requireSources join_slash 4 [''?.css'', ''zz''] sample_node = Some (Inr futs, n')"
    and v: "(\<forall>j<1. \<forall>e. future_state n' (futs ! j) \<noteq> Rejected e) \<longrightarrow>
                  vow_all (map (future_state n') futs) =
                    Rejected (TargetNotFoundError ''There is no tech for target pages/index/zz.'')"
    unfolding m by blast
  have n': "n' = after_css_zz" unfolding after_css_zz_def r by simp
  have futs: "futs = [TargetPromise ''index.css'',
          RejectedPromise (TargetNotFoundError ''There is no tech for target pages/index/zz.'')]"
    using sample_after_css_zz(1) r by simp
  have "vow_all (map (future_state after_css_zz)
        [TargetPromise ''index.css'',
         RejectedPromise (TargetNotFoundError ''There is no tech for target pages/index/zz.'')]) =
       Rejected (TargetNotFoundError ''There is no tech for target pages/index/zz.'')"
    using v unfolding n' futs by (simp add: sample_after_css_zz(2))
  moreover from requireSources_target_not_found [OF h1 h2 h3 k4, of join_slash]
  have "\<exists>futs n'. requireSources join_slash 4 [''zz''] sample_node = Some (Inr futs, n')
         \<and> vow_all (map (future_state n') futs) =
             Rejected (TargetNotFoundError ''There is no tech for target pages/index/zz.'')
         \<and> invoked n' = []"
    unfolding m i by auto
  ultimately show ?thesis
    using r n' futs sample_after_css_zz(2,3) by simp
qed

subsection \<open>The result of build\<close>








subsection \<open>Notifications for a name without an entry\<close>

text \<open>
  On a name that is no inherited name and has no entry, \<open>resolveTarget\<close> and
  \<open>rejectTarget\<close> return normally: they create the entry, with no technology and the
  flags unset, and settle its future. If registration goes through on the node and leaves
  the name without a technology, \<open>requireSources\<close> for that name afterwards still yields
  the fresh promise rejected with the target-not-found error, and invokes nothing.
\<close>

lemma resolve_reject_ordinary_name:
  assumes "nm \<notin> set inherited_names"
    and "map_of (targetNames (n :: 'v node)) nm = None"
    and "registerTargets n = (None, n0)"
    and "\<forall>tobj. map_of (targetNames n0) (unmaskTargetName n nm) = Some tobj \<longrightarrow> tech tobj = None"
  shows "resolveTarget_call nm v n = (None, resolveTarget nm v n)
       \<and> rejectTarget_call nm err n = (None, rejectTarget nm err n)
       \<and> map_of (targetNames (resolveTarget nm v n)) nm =
           Some \<lparr>tech = None, started = False, isValid = False, deferred = Fulfilled v\<rparr>
       \<and> map_of (targetNames (rejectTarget nm err n)) nm =
           Some \<lparr>tech = None, started = False, isValid = False, deferred = Rejected err\<rparr>
       \<and> (\<exists>n'. requireSources J fuel [nm] (resolveTarget nm v n) =
                  Some (Inr [RejectedPromise (TargetNotFoundError
                               (not_found_message J (path n) (unmaskTargetName n nm)))], n')
                \<and> invoked n' = invoked n)
       \<and> (\<exists>n'. requireSources J fuel [nm] (rejectTarget nm err n) =
                  Some (Inr [RejectedPromise (TargetNotFoundError
                               (not_found_message J (path n) (unmaskTargetName n nm)))], n')
                \<and> invoked n' = invoked n)"
proof -
  have none: "target_at n nm = None" using assms(2) by (simp add: target_at_def)
  have un: "tech (the_target n0 (unmaskTargetName n nm)) = None"
    using assms(4) by (simp add: unowned_the_target)
  have 0: "resolveTarget_call nm v n = (None, resolveTarget nm v n)"
    "rejectTarget_call nm err n = (None, rejectTarget nm err n)"
    using assms(1,2) by (simp_all add: resolveTarget_call_def rejectTarget_call_def read_property_def)
  have 1: "map_of (targetNames (resolveTarget nm v n)) nm =
           Some \<lparr>tech = None, started = False, isValid = False, deferred = Fulfilled v\<rparr>"
    using none by (simp add: map_of_target_at resolveTarget_target_at new_target_def defer_resolve_def)
  have 2: "map_of (targetNames (rejectTarget nm err n)) nm =
           Some \<lparr>tech = None, started = False, isValid = False, deferred = Rejected err\<rparr>"
    using none by (simp add: map_of_target_at rejectTarget_target_at new_target_def defer_reject_def)
  have 3: "\<exists>n'. requireSources J fuel [nm] (resolveTarget nm v n) =
                  Some (Inr [RejectedPromise (TargetNotFoundError
                               (not_found_message J (path n) (unmaskTargetName n nm)))], n')
                \<and> invoked n' = invoked n"
    by (rule requireSources_unowned_after [OF assms(3) un]) (simp_all add: binding_resolveTarget)
  have 4: "\<exists>n'. requireSources J fuel [nm] (rejectTarget nm err n) =
                  Some (Inr [RejectedPromise (TargetNotFoundError
                               (not_found_message J (path n) (unmaskTargetName n nm)))], n')
                \<and> invoked n' = invoked n"
    by (rule requireSources_unowned_after [OF assms(3) un]) (simp_all add: binding_rejectTarget)
  from 0 1 2 3 4 show ?thesis by blast
qed

text \<open>
  C9. The sample node has no entry under \<open>constructor\<close> and no technology declares the
  name. \<open>resolveTarget('constructor', 1)\<close> and \<open>rejectTarget('constructor', err)\<close> there
  log and then throw a \<open>TypeError\<close>; no entry is created and no future is settled. On
  \<open>extra.js\<close>, equally unknown to the node, \<open>resolveTarget\<close> returns normally and
  leaves the new entry fulfilled.
\<close>

theorem resolveTarget_inherited_name:
  "map_of (targetNames sample_node) ''constructor'' = None
   \<and> ''constructor'' \<notin> set (concat (map getTargets (techs sample_node)))
   \<and> fst (resolveTarget_call ''constructor'' 1 sample_node)
        = Some (TypeError (''Cannot read properties of undefined (reading '' @ [CHR 0x27] @ ''resolve'' @ [CHR 0x27] @ '')''))
   \<and> targetNames (snd (resolveTarget_call ''constructor'' 1 sample_node)) = []
   \<and> logger (snd (resolveTarget_call ''constructor'' 1 sample_node))
        = [LogAction ''rebuild'' ''constructor'' None]
   \<and> fst (rejectTarget_call ''constructor'' (Error ''x'') sample_node)
        = Some (TypeError (''Cannot read properties of undefined (reading '' @ [CHR 0x27] @ ''reject'' @ [CHR 0x27] @ '')''))
   \<and> targetNames (snd (rejectTarget_call ''constructor'' (Error ''x'') sample_node)) = []
   \<and> logger (snd (rejectTarget_call ''constructor'' (Error ''x'') sample_node))
        = [LogErrorAction ''failed'' ''constructor'' None]
   \<and> fst (resolveTarget_call ''extra.js'' 1 sample_node) = None
   \<and> map_of (targetNames (snd (resolveTarget_call ''extra.js'' 1 sample_node))) ''extra.js''
        = Some \<lparr>tech = None, started = False, isValid = False, deferred = Fulfilled 1\<rparr>"
  by code_simp

end
